theory Spec2Isabelle
  imports Main "HOL-Library.Word" "HOL-Library.AList" "HOL-Library.Multiset"
begin

section \<open>The Odyssey input plugin (plugins/inputs/odyssey/odyssey.go)\<close>

subsection \<open>Values, errors and results\<close>

text \<open>
  A scanned cell is a Go \<open>interface{}\<close> holding one of the value types a database/sql
  driver hands out. \<open>VNil\<close> is the nil interface (SQL NULL, and the content of a fresh
  \<open>new(interface{})\<close>). Floating point values and times are kept as opaque bit patterns:
  the plugin never computes with them.
\<close>

datatype colvalue =
    VInt64 "64 word"
  | VString string
  | VFloat64 "64 word"
  | VBool bool
  | VBytes "8 word list"
  | VTime "64 word"
  | VNil

datatype strconv_err = ErrSyntax | ErrRange

text \<open>
  Errors are values. \<open>DriverError\<close> stands for whatever the database/sql collaborator
  returns, \<open>AddressError\<close> for a failure of the address sanitizer, and
  \<open>NumError fn num err\<close> is Go's \<open>*strconv.NumError{Func, Num, Err}\<close>.
\<close>

datatype error =
    DriverError string
  | AddressError string
  | NumError string string strconv_err

text \<open>
  A Go call either returns a value, returns an error, or panics (a failed unchecked type
  assertion). The three outcomes are kept apart.
\<close>

datatype 'a res = Ok 'a | Error error | Panic

subsection \<open>strconv.ParseInt(s, 10, 64)\<close>

text \<open>
  Modelled from the spec: the Go standard library function \<open>strconv.ParseInt\<close>, called
  at line 81 with base 10 and bit size 64, is not part of the repository. The spec calls it
  "parsed as base-10 signed 64-bit integer"; the model follows the library's algorithm:
  \<open>ParseUint\<close> reads decimal digits into an unsigned 64-bit accumulator, any other byte
  is a syntax error, an overflow is a range error (the value returned is then the maximum),
  and \<open>ParseInt\<close> strips one sign and checks the magnitude against \<open>2^63\<close>.
\<close>

definition is_digit :: "char \<Rightarrow> bool" where
  "is_digit c = (48 \<le> (of_char c :: nat) \<and> (of_char c :: nat) \<le> 57)"

definition digit_val :: "char \<Rightarrow> 64 word" where
  "digit_val c = of_nat ((of_char c :: nat) - 48)"

definition maxUint64 :: "64 word" where
  "maxUint64 = - 1"

fun ParseUint_loop :: "string \<Rightarrow> 64 word \<Rightarrow> 64 word \<times> strconv_err option" where
  "ParseUint_loop [] n = (n, None)"
| "ParseUint_loop (c # cs) n =
     (if \<not> is_digit c then (0, Some ErrSyntax)
      else if n \<ge> maxUint64 div 10 + 1 then (maxUint64, Some ErrRange)
      else (let n' = n * 10; n1 = n' + digit_val c
            in if n1 < n' then (maxUint64, Some ErrRange)
               else ParseUint_loop cs n1))"

definition ParseUint :: "string \<Rightarrow> 64 word \<times> strconv_err option" where
  "ParseUint s = (if s = [] then (0, Some ErrSyntax) else ParseUint_loop s 0)"

definition ParseInt :: "string \<Rightarrow> error + 64 word" where
  "ParseInt s =
     (if s = [] then Inl (NumError ''ParseInt'' s ErrSyntax)
      else
        (let neg = (hd s = CHR ''-'');
             s1 = (if hd s = CHR ''+'' \<or> hd s = CHR ''-'' then tl s else s)
         in case ParseUint s1 of
              (un, Some ErrSyntax) \<Rightarrow> Inl (NumError ''ParseInt'' s ErrSyntax)
            | (un, _) \<Rightarrow>
                if \<not> neg \<and> un \<ge> 2 ^ 63 then Inl (NumError ''ParseInt'' s ErrRange)
                else if neg \<and> un > 2 ^ 63 then Inl (NumError ''ParseInt'' s ErrRange)
                else Inr (if neg then - un else un)))"

subsection \<open>The collaborators: result sets, the address sanitizer, the accumulator\<close>

text \<open>
  Modelled from the spec: the driver behind the \<open>scanner\<close> interface (line 142) is
  database/sql, outside the repository; the spec describes it as a "per-row decode into an
  arbitrary number of dynamically-typed destinations". A row is the list of cells the driver
  decoded, and the error a pending failure makes \<open>Scan\<close> return. \<open>Scan\<close> fails when
  the number of destinations differs from the number of cells, and otherwise stores the cells
  into the destinations in order (a store into a \<open>*interface{}\<close> cannot fail). The stores
  themselves are done by \<open>accRow\<close>, which owns the destinations.
\<close>

record row =
  cells :: "colvalue list"
  scan_error :: "error option"

definition Scan :: "row \<Rightarrow> nat \<Rightarrow> error + colvalue list" where
  "Scan r n =
     (case scan_error r of
        Some e \<Rightarrow> Inl e
      | None \<Rightarrow>
          if n \<noteq> length (cells r)
          then Inl (DriverError ''sql: wrong number of destination arguments in Scan'')
          else Inr (cells r))"

text \<open>
  A result set (\<open>*sql.Rows\<close>): what \<open>Columns()\<close> returns, the rows \<open>Next()\<close> yields
  before it reports the end, and what \<open>Err()\<close> returns after the iteration.
\<close>

record Rows =
  rows_Columns :: "error + string list"
  rows_Next :: "row list"
  rows_Err :: "error option"

text \<open>
  The plugin \<open>p\<close>. Its two collaborators, \<open>p.DB.Query\<close> and
  \<open>p.SanitizedAddress()\<close>, come from the embedded \<open>postgresql.Service\<close>, whose
  source is not part of this development: they are parameters. Within one collection cycle
  the configured address does not change, so the sanitizer's answer is one value.
\<close>

record Odyssey =
  Query :: "string \<Rightarrow> error + Rows"
  SanitizedAddress :: "error + string"

record metric =
  measurement :: string
  fieldset :: "string \<rightharpoonup> colvalue"
  tagset :: "string \<rightharpoonup> string"

text \<open>
  Modelled from the spec: the accumulator (\<open>telegraf.Accumulator\<close>) is the metrics sink,
  which "accepts a measurement name, a TagSet, and a FieldSet". It is the list of metrics
  handed to \<open>acc.AddFields\<close>, oldest first; what the sink does with a metric afterwards
  is not modelled.
\<close>

definition AddFields ::
    "string \<Rightarrow> (string \<rightharpoonup> colvalue) \<Rightarrow> (string \<rightharpoonup> string) \<Rightarrow> metric list \<Rightarrow> metric list" where
  "AddFields m fs ts acc = acc @ [\<lparr>measurement = m, fieldset = fs, tagset = ts\<rparr>]"

subsection \<open>ignoredColumns (lines 18-20)\<close>

definition ignoredColumns :: "(string \<times> bool) list" where
  "ignoredColumns =
     [(''user'', True), (''database'', True), (''pool_mode'', True),
      (''avg_req'', True), (''avg_recv'', True), (''avg_sent'', True), (''avg_query'', True)]"

text \<open>\<open>_, ignore := ignoredColumns[col]\<close>: the key is present.\<close>

definition ignore :: "string \<Rightarrow> bool" where
  "ignore col = (map_of ignoredColumns col \<noteq> None)"

subsection \<open>accRow (lines 146-184)\<close>

text \<open>
  \<open>columnMap\<close> is a Go map from column name to a pointer to a value slot. It is an
  association list with one entry per key (\<open>AList.update\<close> overwrites in place), so that
  the map can be ranged over; a slot is identified by its key. Each column first gets a
  fresh nil slot; \<open>columnVars\<close> collects the slots of \<open>columns[0 .. len(columnMap) - 1]\<close>
  (the index is in range, since the map has at most one key per column); \<open>Scan\<close> then
  stores the cells through those pointers, in order.

  \<open>columnMap["database"] != nil\<close> tests the presence of the key. The type assertion
  \<open>(*columnMap["database"]).(string)\<close> is unchecked: on any value that is not a string
  it panics. The sanitizer is called afterwards.
\<close>

type_synonym columnMap = "(string \<times> colvalue) list"

definition accRow ::
    "Odyssey \<Rightarrow> row \<Rightarrow> string list \<Rightarrow> ((string \<rightharpoonup> string) \<times> columnMap) res" where
  "accRow p r columns =
     (let columnMap0 = fold (\<lambda>column m. AList.update column VNil m) columns [];
          columnVars = map (\<lambda>i. columns ! i) [0 ..< length columnMap0]
      in case Scan r (length columnVars) of
           Inl err \<Rightarrow> Error err
         | Inr vals \<Rightarrow>
             (let columnMap = fold (\<lambda>(k, v) m. AList.update k v m) (zip columnVars vals) columnMap0
              in case (case map_of columnMap ''database'' of
                         None \<Rightarrow> Ok ''postgres''
                       | Some (VString s) \<Rightarrow> Ok s
                       | Some _ \<Rightarrow> Panic) of
                   Panic \<Rightarrow> Panic
                 | Error err \<Rightarrow> Error err
                 | Ok dbname \<Rightarrow>
                     (case SanitizedAddress p of
                        Inl err \<Rightarrow> Error err
                      | Inr tagAddress \<Rightarrow>
                          Ok ([''server'' \<mapsto> tagAddress, ''db'' \<mapsto> dbname], columnMap))))"

subsection \<open>Gather (lines 42-140)\<close>

text \<open>
  Go leaves the order of \<open>range\<close> over a map unspecified. The order is a parameter: a
  rank on the keys, and the range visits the entries by increasing rank. Every permutation
  of the entries is the order of some rank.
\<close>

definition range_map :: "(string \<Rightarrow> nat) \<Rightarrow> columnMap \<Rightarrow> columnMap" where
  "range_map rank columnMap = sort_key (\<lambda>kv. rank (fst kv)) columnMap"

text \<open>The inner loop of the statistics pass (lines 71-88), over the entries in range order.\<close>

fun stats_fields ::
    "columnMap \<Rightarrow> (string \<rightharpoonup> colvalue) \<Rightarrow> error + (string \<rightharpoonup> colvalue)" where
  "stats_fields [] fs = Inr fs"
| "stats_fields ((col, val) # rest) fs =
     (if ignore col then stats_fields rest fs
      else case val of
             VInt64 v \<Rightarrow> stats_fields rest (fs(col \<mapsto> VInt64 v))
           | VString v \<Rightarrow>
               (case ParseInt v of
                  Inl err \<Rightarrow> Inl err
                | Inr integer \<Rightarrow> stats_fields rest (fs(col \<mapsto> VInt64 integer)))
           | _ \<Rightarrow> stats_fields rest fs)"

text \<open>
  The body of the statistics loop (lines 64-89) up to the call of \<open>AddFields\<close>: the metric
  to add, or the error returned, or a panic.
\<close>

definition stats_row :: "Odyssey \<Rightarrow> (string \<Rightarrow> nat) \<Rightarrow> string list \<Rightarrow> row \<Rightarrow> metric res" where
  "stats_row p rank columns r =
     (case accRow p r columns of
        Panic \<Rightarrow> Panic
      | Error err \<Rightarrow> Error err
      | Ok (tgs, columnMap) \<Rightarrow>
          (case stats_fields (range_map rank columnMap) Map.empty of
             Inl err \<Rightarrow> Error err
           | Inr fs \<Rightarrow> Ok \<lparr>measurement = ''odyssey'', fieldset = fs, tagset = tgs\<rparr>))"

text \<open>
  \<open>for rows.Next() { ... }\<close> (lines 63-90). \<open>ord k\<close> is the rank used by the \<open>k\<close>-th
  execution of a range statement. The result is the accumulator and how the loop was left:
  \<open>Ok ()\<close> when the rows are exhausted, otherwise the early return or the panic.
\<close>

fun stats_rows ::
    "Odyssey \<Rightarrow> (nat \<Rightarrow> string \<Rightarrow> nat) \<Rightarrow> string list \<Rightarrow> row list \<Rightarrow> metric list
      \<Rightarrow> metric list \<times> unit res" where
  "stats_rows p ord columns [] acc = (acc, Ok ())"
| "stats_rows p ord columns (r # rs) acc =
     (case stats_row p (ord 0) columns r of
        Panic \<Rightarrow> (acc, Panic)
      | Error err \<Rightarrow> (acc, Error err)
      | Ok m \<Rightarrow>
          stats_rows p (\<lambda>k. ord (Suc k)) columns rs
            (AddFields (measurement m) (fieldset m) (tagset m) acc))"

text \<open>The inner loop of the pool-status pass (lines 130-135).\<close>

fun pool_fields :: "columnMap \<Rightarrow> (string \<rightharpoonup> colvalue) \<Rightarrow> (string \<rightharpoonup> colvalue)" where
  "pool_fields [] fs = fs"
| "pool_fields ((col, val) # rest) fs =
     (if \<not> ignore col then pool_fields rest (fs(col \<mapsto> val)) else pool_fields rest fs)"

text \<open>
  Lines 117-121 and 123-127: the checked type assertion \<open>s, ok := (*v).(string)\<close>, and
  the tag is set when \<open>ok && s != ""\<close>.
\<close>

definition tag_from_column ::
    "string \<Rightarrow> columnMap \<Rightarrow> (string \<rightharpoonup> string) \<Rightarrow> (string \<rightharpoonup> string)" where
  "tag_from_column key columnMap tgs =
     (case map_of columnMap key of
        Some (VString s) \<Rightarrow> if s \<noteq> [] then tgs(key \<mapsto> s) else tgs
      | _ \<Rightarrow> tgs)"

text \<open>The body of the pool-status loop (lines 112-136) up to the call of \<open>AddFields\<close>.\<close>

definition pool_row :: "Odyssey \<Rightarrow> (string \<Rightarrow> nat) \<Rightarrow> string list \<Rightarrow> row \<Rightarrow> metric res" where
  "pool_row p rank columns r =
     (case accRow p r columns of
        Panic \<Rightarrow> Panic
      | Error err \<Rightarrow> Error err
      | Ok (tgs, columnMap) \<Rightarrow>
          (let tgs1 = tag_from_column ''user'' columnMap tgs;
               tgs2 = tag_from_column ''pool_mode'' columnMap tgs1;
               fs = pool_fields (range_map rank columnMap) Map.empty
           in Ok \<lparr>measurement = ''odyssey_pools'', fieldset = fs, tagset = tgs2\<rparr>))"

fun pool_rows ::
    "Odyssey \<Rightarrow> (nat \<Rightarrow> string \<Rightarrow> nat) \<Rightarrow> string list \<Rightarrow> row list \<Rightarrow> metric list
      \<Rightarrow> metric list \<times> unit res" where
  "pool_rows p ord columns [] acc = (acc, Ok ())"
| "pool_rows p ord columns (r # rs) acc =
     (case pool_row p (ord 0) columns r of
        Panic \<Rightarrow> (acc, Panic)
      | Error err \<Rightarrow> (acc, Error err)
      | Ok m \<Rightarrow>
          pool_rows p (\<lambda>k. ord (Suc k)) columns rs
            (AddFields (measurement m) (fieldset m) (tagset m) acc))"

text \<open>
  The second half of \<open>Gather\<close> (lines 97-139). \<open>return poolRows.Err()\<close> returns nil or
  the error.
\<close>

definition gather_pools ::
    "Odyssey \<Rightarrow> (nat \<Rightarrow> string \<Rightarrow> nat) \<Rightarrow> metric list \<Rightarrow> metric list \<times> unit res" where
  "gather_pools p ord acc =
     (case Query p ''SHOW POOLS'' of
        Inl err \<Rightarrow> (acc, Error err)
      | Inr poolRows \<Rightarrow>
          (case rows_Columns poolRows of
             Inl err \<Rightarrow> (acc, Error err)
           | Inr columns \<Rightarrow>
               (case pool_rows p ord columns (rows_Next poolRows) acc of
                  (acc1, Ok u) \<Rightarrow>
                    (case rows_Err poolRows of
                       Some err \<Rightarrow> (acc1, Error err)
                     | None \<Rightarrow> (acc1, Ok ()))
                | (acc1, out) \<Rightarrow> (acc1, out))))"

text \<open>
  \<open>Gather\<close>: the statistics pass, then the pool-status pass. The range statements of the
  second pass are numbered after those of the first, one per statistics row.
\<close>

definition Gather ::
    "Odyssey \<Rightarrow> (nat \<Rightarrow> string \<Rightarrow> nat) \<Rightarrow> metric list \<Rightarrow> metric list \<times> unit res" where
  "Gather p ord acc =
     (case Query p ''SHOW STATS'' of
        Inl err \<Rightarrow> (acc, Error err)
      | Inr rows \<Rightarrow>
          (case rows_Columns rows of
             Inl err \<Rightarrow> (acc, Error err)
           | Inr columns \<Rightarrow>
               (case stats_rows p ord columns (rows_Next rows) acc of
                  (acc1, Ok u) \<Rightarrow>
                    (case rows_Err rows of
                       Some err \<Rightarrow> (acc1, Error err)
                     | None \<Rightarrow>
                         gather_pools p (\<lambda>k. ord (length (rows_Next rows) + k)) acc1)
                | (acc1, out) \<Rightarrow> (acc1, out))))"

subsection \<open>The specification's view of a row\<close>

text \<open>
  The coercion of one statistics-pass value, in the words of the specification: a native
  integer is copied through, a string is parsed as a base-10 signed 64-bit integer (a parse
  failure is an error), any other native type is dropped (\<open>Inr None\<close>).
\<close>

definition coerce_stats :: "colvalue \<Rightarrow> error + colvalue option" where
  "coerce_stats val =
     (case val of
        VInt64 v \<Rightarrow> Inr (Some (VInt64 v))
      | VString s \<Rightarrow> (case ParseInt s of Inl e \<Rightarrow> Inl e | Inr i \<Rightarrow> Inr (Some (VInt64 i)))
      | _ \<Rightarrow> Inr None)"

text \<open>
  The field set of a statistics row in the words of the specification, for a row without
  parse failure: the coerced value of every column that is not ignored.
\<close>

definition spec_stats_fields :: "columnMap \<Rightarrow> (string \<rightharpoonup> colvalue)" where
  "spec_stats_fields cm =
     (\<lambda>col. case map_of cm col of
              None \<Rightarrow> None
            | Some val \<Rightarrow>
                if ignore col then None
                else (case coerce_stats val of Inr x \<Rightarrow> x | Inl e \<Rightarrow> None))"

text \<open>
  The field set of a pool-status row in the words of the specification: every column that
  is not ignored, with its value unchanged.
\<close>

definition spec_pool_fields :: "columnMap \<Rightarrow> (string \<rightharpoonup> colvalue)" where
  "spec_pool_fields cm =
     (\<lambda>col. case map_of cm col of
              None \<Rightarrow> None
            | Some val \<Rightarrow> if ignore col then None else Some val)"

text \<open>
  Two outcomes are of the same kind when they are equal, or when both are error returns
  (which of several parse errors is returned depends on the range order).
\<close>

definition same_outcome :: "'a res \<Rightarrow> 'a res \<Rightarrow> bool" where
  "same_outcome a b = (case a of Error e \<Rightarrow> (case b of Error e' \<Rightarrow> True | _ \<Rightarrow> False) | _ \<Rightarrow> a = b)"

subsection \<open>Example inputs\<close>

text \<open>
  A plugin whose database answers the two queries with the given result sets and whose
  address sanitizes to \<open>host=localhost\<close>; a result set of rows that scan without
  error; and the range order that visits the entries in the order of the association list.
\<close>

definition plugin_of :: "Rows \<Rightarrow> Rows \<Rightarrow> Odyssey" where
  "plugin_of stats pools =
     \<lparr>Query = (\<lambda>q. if q = ''SHOW STATS'' then Inr stats
                    else if q = ''SHOW POOLS'' then Inr pools
                    else Inl (DriverError ''unknown query'')),
      SanitizedAddress = Inr ''host=localhost''\<rparr>"

definition scanned :: "colvalue list \<Rightarrow> row" where
  "scanned cs = \<lparr>cells = cs, scan_error = None\<rparr>"

definition result_set :: "string list \<Rightarrow> colvalue list list \<Rightarrow> Rows" where
  "result_set columns rs =
     \<lparr>rows_Columns = Inr columns, rows_Next = map scanned rs, rows_Err = None\<rparr>"

definition in_order :: "nat \<Rightarrow> string \<Rightarrow> nat" where
  "in_order k col = 0"

text \<open>The same plugin with an address the sanitizer rejects.\<close>

definition failing_sanitizer :: "Odyssey \<Rightarrow> Odyssey" where
  "failing_sanitizer p = p\<lparr>SanitizedAddress := Inl (AddressError ''invalid connection string'')\<rparr>"

text \<open>A result set whose end-of-iteration check reports an error.\<close>

definition failing_at_end :: "Rows \<Rightarrow> Rows" where
  "failing_at_end rows = rows\<lparr>rows_Err := Some (DriverError ''unexpected EOF'')\<rparr>"

text \<open>A range order that visits \<open>total_query_count\<close> first.\<close>

definition reversed :: "nat \<Rightarrow> string \<Rightarrow> nat" where
  "reversed k col = (if col = ''total_query_count'' then 0 else 1)"

section \<open>Properties of the embedding\<close>

subsection \<open>The column map built by accRow\<close>

lemma update_append_new: "k \<notin> fst ` set al \<Longrightarrow> AList.update k v al = al @ [(k, v)]"
  by (induction al) auto

lemma update_in_place:
  "k \<notin> fst ` set pre \<Longrightarrow> AList.update k v (pre @ (k, w) # rest) = pre @ (k, v) # rest"
  by (induction pre) auto

lemma fresh_slots:
  "distinct cols \<Longrightarrow> set cols \<inter> fst ` set m0 = {} \<Longrightarrow>
   fold (\<lambda>c m. AList.update c VNil m) cols m0 = m0 @ map (\<lambda>c. (c, VNil)) cols"
proof (induction cols arbitrary: m0)
  case Nil
  then show ?case by simp
next
  case (Cons c cs)
  have new: "AList.update c VNil m0 = m0 @ [(c, VNil)]"
    using Cons.prems by (intro update_append_new) auto
  have "set cs \<inter> fst ` set (m0 @ [(c, VNil)]) = {}"
    using Cons.prems by auto
  with Cons.IH [of "m0 @ [(c, VNil)]"] Cons.prems new show ?case by simp
qed

lemma store_cells:
  "distinct ks \<Longrightarrow> length vs = length ks \<Longrightarrow> set ks \<inter> fst ` set pre = {} \<Longrightarrow>
   fold (\<lambda>(k, v) m. AList.update k v m) (zip ks vs) (pre @ map (\<lambda>c. (c, w)) ks) = pre @ zip ks vs"
proof (induction ks arbitrary: vs pre)
  case Nil
  then show ?case by simp
next
  case (Cons k ks)
  then obtain v vs' where vs: "vs = v # vs'" by (cases vs) auto
  have k: "k \<notin> fst ` set pre" using Cons.prems by auto
  have step: "AList.update k v (pre @ (k, w) # map (\<lambda>c. (c, w)) ks) = (pre @ [(k, v)]) @ map (\<lambda>c. (c, w)) ks"
    using update_in_place [OF k] by simp
  have "set ks \<inter> fst ` set (pre @ [(k, v)]) = {}" using Cons.prems by auto
  with Cons.IH [of vs' "pre @ [(k, v)]"] Cons.prems vs step show ?case by simp
qed

lemma keys_fresh_slots:
  "distinct (map fst m0) \<Longrightarrow>
   distinct (map fst (fold (\<lambda>c m. AList.update c VNil m) cols m0)) \<and>
   fst ` set (fold (\<lambda>c m. AList.update c VNil m) cols m0) = set cols \<union> fst ` set m0"
  by (induction cols arbitrary: m0) (auto simp: distinct_update dom_update)

lemma keys_store:
  "distinct (map fst m0) \<Longrightarrow>
   distinct (map fst (fold (\<lambda>(k, v) m. AList.update k v m) kvs m0)) \<and>
   fst ` set (fold (\<lambda>(k, v) m. AList.update k v m) kvs m0) = fst ` set kvs \<union> fst ` set m0"
proof (induction kvs arbitrary: m0)
  case Nil
  then show ?case by simp
next
  case (Cons kv kvs)
  obtain k v where kv: "kv = (k, v)" by (cases kv)
  have d: "distinct (map fst (AList.update k v m0))"
    using Cons.prems by (rule distinct_update)
  have s: "fst ` set (AList.update k v m0) = {k} \<union> fst ` set m0"
    by (rule dom_update)
  from Cons.IH [OF d] s kv show ?case by auto
qed

lemma length_slots: "length (fold (\<lambda>c m. AList.update c VNil m) cols []) = card (set cols)"
proof -
  let ?m = "fold (\<lambda>c m. AList.update c VNil m) cols []"
  have d: "distinct (map fst ?m)" and s: "fst ` set ?m = set cols"
    using keys_fresh_slots [of "[]" cols] by auto
  have "length ?m = length (map fst ?m)" by simp
  also have "\<dots> = card (set (map fst ?m))" using d by (simp only: distinct_card)
  also have "\<dots> = card (set cols)" using s by simp
  finally show ?thesis .
qed

lemma distinct_keys_range_map: "distinct (map fst (range_map rank cm)) = distinct (map fst cm)"
proof -
  have "mset (map fst (range_map rank cm)) = mset (map fst cm)"
    by (simp add: range_map_def)
  then show ?thesis by (rule mset_eq_imp_distinct_iff)
qed

lemma set_range_map: "set (range_map rank cm) = set cm"
  by (simp add: range_map_def)

lemma columnVars_wf:
  "distinct columns \<Longrightarrow>
   map (\<lambda>i. columns ! i) [0 ..< length (fold (\<lambda>c m. AList.update c VNil m) columns [])] = columns"
  by (simp add: length_slots distinct_card map_nth)

lemma scanned_wf:
  assumes "distinct columns" "length vals = length columns"
  shows "fold (\<lambda>(k, v) m. AList.update k v m)
           (zip (map (\<lambda>i. columns ! i) [0 ..< length (fold (\<lambda>c m. AList.update c VNil m) columns [])]) vals)
           (fold (\<lambda>c m. AList.update c VNil m) columns []) = zip columns vals"
proof -
  have a: "fold (\<lambda>c m. AList.update c VNil m) columns [] = [] @ map (\<lambda>c. (c, VNil)) columns"
    using assms(1) by (subst fresh_slots) auto
  show ?thesis
    unfolding columnVars_wf [OF assms(1)]
    unfolding a
    using store_cells [of columns vals "[]" VNil] assms by simp
qed

lemma accRow_wf:
  assumes "scan_error r = None" "distinct columns" "length (cells r) = length columns"
  shows "accRow p r columns =
           (case map_of (zip columns (cells r)) ''database'' of
              None \<Rightarrow>
                (case SanitizedAddress p of
                   Inl err \<Rightarrow> Error err
                 | Inr a \<Rightarrow> Ok ([''server'' \<mapsto> a, ''db'' \<mapsto> ''postgres''], zip columns (cells r)))
            | Some (VString s) \<Rightarrow>
                (case SanitizedAddress p of
                   Inl err \<Rightarrow> Error err
                 | Inr a \<Rightarrow> Ok ([''server'' \<mapsto> a, ''db'' \<mapsto> s], zip columns (cells r)))
            | Some _ \<Rightarrow> Panic)"
proof -
  let ?cm0 = "fold (\<lambda>c m. AList.update c VNil m) columns []"
  let ?vars = "map (\<lambda>i. columns ! i) [0 ..< length ?cm0]"
  have n: "length ?cm0 = length (cells r)"
    using assms by (simp add: length_slots distinct_card)
  have sc: "Scan r (length ?vars) = Inr (cells r)"
    using assms n by (simp add: Scan_def)
  have st: "fold (\<lambda>(k, v) m. AList.update k v m) (zip ?vars (cells r)) ?cm0 = zip columns (cells r)"
    using assms by (intro scanned_wf) auto
  have eq: "accRow p r columns =
     (case (case map_of (zip columns (cells r)) ''database'' of
                         None \<Rightarrow> Ok ''postgres''
                       | Some (VString s) \<Rightarrow> Ok s
                       | Some _ \<Rightarrow> Panic) of
                   Panic \<Rightarrow> Panic
                 | Error err \<Rightarrow> Error err
                 | Ok dbname \<Rightarrow>
                     (case SanitizedAddress p of
                        Inl err \<Rightarrow> Error err
                      | Inr tagAddress \<Rightarrow>
                          Ok ([''server'' \<mapsto> tagAddress, ''db'' \<mapsto> dbname], zip columns (cells r))))"
    by (simp only: accRow_def Let_def sc st sum.case)
  show ?thesis
  proof (cases "map_of (zip columns (cells r)) ''database''")
    case None
    then show ?thesis unfolding eq by (simp only: option.case res.case)
  next
    case (Some v)
    then show ?thesis unfolding eq by (cases v) (simp_all only: option.case res.case colvalue.case)
  qed
qed

lemma accRow_OkD:
  assumes "accRow p r columns = Ok (tgs, cm)"
  shows "scan_error r = None"
    and "distinct (map fst cm)"
    and "fst ` set cm = set columns"
    and "\<exists>a d. SanitizedAddress p = Inr a \<and> tgs = [''server'' \<mapsto> a, ''db'' \<mapsto> d] \<and>
           (map_of cm ''database'' = None \<and> d = ''postgres'' \<or> map_of cm ''database'' = Some (VString d))"
proof -
  define cm0 where "cm0 = fold (\<lambda>c m. AList.update c VNil m) columns []"
  define vars where "vars = map (\<lambda>i. columns ! i) [0 ..< length cm0]"
  from assms obtain vals where sc: "Scan r (length vars) = Inr vals"
    unfolding accRow_def Let_def cm0_def vars_def by (cases "Scan r (length (map (\<lambda>i. columns ! i) [0 ..< length (fold (\<lambda>c m. AList.update c VNil m) columns [])]))") simp_all
  define cm1 where "cm1 = fold (\<lambda>(k, v) m. AList.update k v m) (zip vars vals) cm0"
  have eq: "accRow p r columns =
     (case (case map_of cm1 ''database'' of
                         None \<Rightarrow> Ok ''postgres''
                       | Some (VString s) \<Rightarrow> Ok s
                       | Some _ \<Rightarrow> Panic) of
                   Panic \<Rightarrow> Panic
                 | Error err \<Rightarrow> Error err
                 | Ok dbname \<Rightarrow>
                     (case SanitizedAddress p of
                        Inl err \<Rightarrow> Error err
                      | Inr tagAddress \<Rightarrow>
                          Ok ([''server'' \<mapsto> tagAddress, ''db'' \<mapsto> dbname], cm1)))"
    using sc unfolding cm1_def vars_def cm0_def by (simp only: accRow_def Let_def sum.case)
  from sc show "scan_error r = None"
    by (auto simp: Scan_def split: option.splits if_splits)
  from assms have cm: "cm = cm1"
    unfolding eq by (auto split: sum.splits res.splits option.splits colvalue.splits)
  have k0: "distinct (map fst cm0)" "fst ` set cm0 = set columns"
    unfolding cm0_def using keys_fresh_slots [of "[]" columns] by auto
  have k1: "distinct (map fst cm1)"
    unfolding cm1_def using keys_store [OF k0(1)] by blast
  have k2: "fst ` set cm1 = fst ` set (zip vars vals) \<union> fst ` set cm0"
    unfolding cm1_def using keys_store [OF k0(1)] by blast
  show "distinct (map fst cm)" using cm k1 by simp
  have "length cm0 \<le> length columns"
    unfolding cm0_def by (simp add: length_slots card_length)
  then have "set vars \<subseteq> set columns" unfolding vars_def by auto
  moreover have "fst ` set (zip vars vals) \<subseteq> set vars"
    by (auto dest: set_zip_leftD)
  ultimately show "fst ` set cm = set columns" using cm k2 k0(2) by auto
  from assms
  show "\<exists>a d. SanitizedAddress p = Inr a \<and> tgs = [''server'' \<mapsto> a, ''db'' \<mapsto> d] \<and>
           (map_of cm ''database'' = None \<and> d = ''postgres'' \<or> map_of cm ''database'' = Some (VString d))"
    unfolding eq cm by (auto split: sum.splits res.splits option.splits colvalue.splits)
qed

lemma map_of_range_map: "distinct (map fst cm) \<Longrightarrow> map_of (range_map rank cm) = map_of cm"
  using map_of_inject_set [of "range_map rank cm" cm]
  by (simp add: distinct_keys_range_map set_range_map)

lemma stats_fields_Inr:
  assumes "distinct (map fst kvs)"
    and "\<forall>c v. (c, v) \<in> set kvs \<longrightarrow> \<not> ignore c \<longrightarrow> \<not> isl (coerce_stats v)"
  shows "stats_fields kvs fs =
           Inr (\<lambda>c. case map_of kvs c of
                      None \<Rightarrow> fs c
                    | Some v \<Rightarrow>
                        if ignore c then fs c
                        else (case coerce_stats v of Inr (Some x) \<Rightarrow> Some x | _ \<Rightarrow> fs c))"
  using assms
proof (induction kvs arbitrary: fs)
  case Nil
  then show ?case by simp
next
  case (Cons kv kvs)
  let ?F = "\<lambda>kvs fs c. case map_of kvs c of
                      None \<Rightarrow> fs c
                    | Some v \<Rightarrow>
                        if ignore c then fs c
                        else (case coerce_stats v of Inr (Some x) \<Rightarrow> Some x | _ \<Rightarrow> fs c)"
  obtain col val where kv: "kv = (col, val)" by (cases kv)
  have d: "distinct (map fst kvs)" and fresh: "map_of kvs col = None"
    using Cons.prems(1) kv by (auto simp: map_of_eq_None_iff)
  have ok: "\<forall>c v. (c, v) \<in> set kvs \<longrightarrow> \<not> ignore c \<longrightarrow> \<not> isl (coerce_stats v)"
    using Cons.prems(2) by auto
  have IH: "stats_fields kvs fs' = Inr (?F kvs fs')" for fs'
    by (rule Cons.IH [OF d ok])
  have nb: "\<not> ignore col \<Longrightarrow> \<not> isl (coerce_stats val)"
    using Cons.prems(2) kv by auto
  have same: "?F kvs fs = ?F (kv # kvs) fs" if "ignore col \<or> coerce_stats val = Inr None"
    using that fresh kv by (auto simp: fun_eq_iff split: option.splits sum.splits)
  have upd: "?F kvs (fs(col \<mapsto> x)) = ?F (kv # kvs) fs"
    if "\<not> ignore col" "coerce_stats val = Inr (Some x)" for x
    using that fresh kv by (auto simp: fun_eq_iff split: option.splits sum.splits)
  show ?case
  proof (cases "ignore col")
    case True
    then have "stats_fields (kv # kvs) fs = stats_fields kvs fs" by (simp add: kv)
    with IH [of fs] same True show ?thesis by simp
  next
    case False
    show ?thesis
    proof (cases val)
      case (VInt64 i)
      then have "stats_fields (kv # kvs) fs = stats_fields kvs (fs(col \<mapsto> VInt64 i))"
        using False by (simp add: kv)
      moreover have "coerce_stats val = Inr (Some (VInt64 i))"
        using VInt64 by (simp add: coerce_stats_def)
      ultimately show ?thesis using IH [of "fs(col \<mapsto> VInt64 i)"] upd [OF False] by simp
    next
      case (VString s)
      with nb [OF False] obtain i where i: "ParseInt s = Inr i"
        by (cases "ParseInt s") (auto simp: coerce_stats_def)
      then have "stats_fields (kv # kvs) fs = stats_fields kvs (fs(col \<mapsto> VInt64 i))"
        using False VString by (simp add: kv)
      moreover have "coerce_stats val = Inr (Some (VInt64 i))"
        using VString i by (simp add: coerce_stats_def)
      ultimately show ?thesis using IH [of "fs(col \<mapsto> VInt64 i)"] upd [OF False] by simp
    next
      case (VFloat64 x)
      then have "stats_fields (kv # kvs) fs = stats_fields kvs fs" using False by (simp add: kv)
      moreover have "coerce_stats val = Inr None" using VFloat64 by (simp add: coerce_stats_def)
      ultimately show ?thesis using IH [of fs] same by simp
    next
      case (VBool x)
      then have "stats_fields (kv # kvs) fs = stats_fields kvs fs" using False by (simp add: kv)
      moreover have "coerce_stats val = Inr None" using VBool by (simp add: coerce_stats_def)
      ultimately show ?thesis using IH [of fs] same by simp
    next
      case (VBytes x)
      then have "stats_fields (kv # kvs) fs = stats_fields kvs fs" using False by (simp add: kv)
      moreover have "coerce_stats val = Inr None" using VBytes by (simp add: coerce_stats_def)
      ultimately show ?thesis using IH [of fs] same by simp
    next
      case (VTime x)
      then have "stats_fields (kv # kvs) fs = stats_fields kvs fs" using False by (simp add: kv)
      moreover have "coerce_stats val = Inr None" using VTime by (simp add: coerce_stats_def)
      ultimately show ?thesis using IH [of fs] same by simp
    next
      case VNil
      then have "stats_fields (kv # kvs) fs = stats_fields kvs fs" using False by (simp add: kv)
      moreover have "coerce_stats val = Inr None" using VNil by (simp add: coerce_stats_def)
      ultimately show ?thesis using IH [of fs] same by simp
    qed
  qed
qed

lemma stats_fields_Inl:
  assumes "(c, v) \<in> set kvs" "\<not> ignore c" "isl (coerce_stats v)"
  shows "\<exists>c' s' e'. (c', VString s') \<in> set kvs \<and> \<not> ignore c' \<and> ParseInt s' = Inl e' \<and>
           stats_fields kvs fs = Inl e'"
  using assms
proof (induction kvs arbitrary: fs)
  case Nil
  then show ?case by simp
next
  case (Cons kv kvs)
  obtain col val where kv: "kv = (col, val)" by (cases kv)
  show ?case
  proof (cases "\<not> ignore col \<and> isl (coerce_stats val)")
    case True
    then obtain s e where "val = VString s" "ParseInt s = Inl e"
      by (cases val; cases "ParseInt (case val of VString s \<Rightarrow> s | _ \<Rightarrow> [])")
         (auto simp: coerce_stats_def split: sum.splits)
    with True kv show ?thesis by auto
  next
    case False
    with Cons.prems kv have "(c, v) \<in> set kvs" by auto
    from Cons.IH [OF this Cons.prems(2,3)] have
      "\<And>fs. \<exists>c' s' e'. (c', VString s') \<in> set kvs \<and> \<not> ignore c' \<and> ParseInt s' = Inl e' \<and>
           stats_fields kvs fs = Inl e'" by blast
    note IH = this
    show ?thesis
    proof (cases "ignore col")
      case True
      with IH [of fs] kv show ?thesis by auto
    next
      case ni: False
      with False have nb: "\<not> isl (coerce_stats val)" by simp
      show ?thesis
      proof (cases val)
        case (VInt64 i)
        with IH [of "fs(col \<mapsto> VInt64 i)"] kv ni show ?thesis by auto
      next
        case (VString s)
        with nb obtain i where i: "ParseInt s = Inr i"
          by (cases "ParseInt s") (auto simp: coerce_stats_def)
        with IH [of "fs(col \<mapsto> VInt64 i)"] kv ni VString show ?thesis by auto
      qed (use IH [of fs] kv ni in auto)
    qed
  qed
qed

lemma pool_fields_eq:
  assumes "distinct (map fst kvs)"
  shows "pool_fields kvs fs =
           (\<lambda>c. case map_of kvs c of
                  None \<Rightarrow> fs c
                | Some v \<Rightarrow> if ignore c then fs c else Some v)"
  using assms
proof (induction kvs arbitrary: fs)
  case Nil
  then show ?case by simp
next
  case (Cons kv kvs)
  obtain col val where kv: "kv = (col, val)" by (cases kv)
  have d: "distinct (map fst kvs)" and fresh: "map_of kvs col = None"
    using Cons.prems(1) kv by (auto simp: map_of_eq_None_iff)
  show ?case
    unfolding kv using Cons.IH [OF d] fresh by (auto simp: fun_eq_iff split: option.splits)
qed

lemma stats_row_Ok:
  assumes "accRow p r columns = Ok (tgs, cm)"
    and "\<forall>c v. (c, v) \<in> set cm \<longrightarrow> \<not> ignore c \<longrightarrow> \<not> isl (coerce_stats v)"
  shows "stats_row p rank columns r =
           Ok \<lparr>measurement = ''odyssey'', fieldset = spec_stats_fields cm, tagset = tgs\<rparr>"
proof -
  have d: "distinct (map fst (range_map rank cm))"
    using accRow_OkD(2) [OF assms(1)] by (simp add: distinct_keys_range_map)
  have ok: "\<forall>c v. (c, v) \<in> set (range_map rank cm) \<longrightarrow> \<not> ignore c \<longrightarrow> \<not> isl (coerce_stats v)"
    using assms(2) by (simp add: set_range_map)
  have m: "map_of (range_map rank cm) = map_of cm"
    using accRow_OkD(2) [OF assms(1)] by (rule map_of_range_map)
  have "stats_fields (range_map rank cm) Map.empty = Inr (spec_stats_fields cm)"
    unfolding stats_fields_Inr [OF d ok] m spec_stats_fields_def
    by (auto simp: fun_eq_iff split: option.splits sum.splits)
  then show ?thesis using assms(1) by (simp add: stats_row_def)
qed

lemma stats_row_Error:
  assumes "accRow p r columns = Ok (tgs, cm)"
    and "(c, v) \<in> set cm" "\<not> ignore c" "isl (coerce_stats v)"
  shows "\<exists>c' s' e'. (c', VString s') \<in> set cm \<and> \<not> ignore c' \<and> ParseInt s' = Inl e' \<and>
           stats_row p rank columns r = Error e'"
proof -
  have "(c, v) \<in> set (range_map rank cm)" using assms(2) by (simp add: set_range_map)
  from stats_fields_Inl [OF this assms(3,4), of Map.empty]
  obtain c' s' e' where "(c', VString s') \<in> set cm" "\<not> ignore c'" "ParseInt s' = Inl e'"
    "stats_fields (range_map rank cm) Map.empty = Inl e'"
    by (auto simp: set_range_map)
  then show ?thesis using assms(1) by (auto simp: stats_row_def)
qed

lemma pool_row_Ok:
  assumes "accRow p r columns = Ok (tgs, cm)"
  shows "pool_row p rank columns r =
           Ok \<lparr>measurement = ''odyssey_pools'', fieldset = spec_pool_fields cm,
               tagset = tag_from_column ''pool_mode'' cm (tag_from_column ''user'' cm tgs)\<rparr>"
proof -
  have d: "distinct (map fst (range_map rank cm))"
    using accRow_OkD(2) [OF assms(1)] by (simp add: distinct_keys_range_map)
  have m: "map_of (range_map rank cm) = map_of cm"
    using accRow_OkD(2) [OF assms(1)] by (rule map_of_range_map)
  have "pool_fields (range_map rank cm) Map.empty = spec_pool_fields cm"
    unfolding pool_fields_eq [OF d] m spec_pool_fields_def ..
  then show ?thesis using assms(1) by (simp add: pool_row_def)
qed

lemma pool_row_rank: "pool_row p rank columns r = pool_row p rank' columns r"
proof (cases "accRow p r columns")
  case (Ok x)
  obtain tgs cm where "x = (tgs, cm)" by (cases x)
  with Ok show ?thesis by (simp add: pool_row_Ok)
qed (simp_all add: pool_row_def)

lemma same_outcome_refl: "same_outcome a a"
  by (cases a) (simp_all add: same_outcome_def)

lemma stats_row_rank: "same_outcome (stats_row p rank columns r) (stats_row p rank' columns r)"
proof (cases "accRow p r columns")
  case (Ok x)
  obtain tgs cm where x: "x = (tgs, cm)" by (cases x)
  show ?thesis
  proof (cases "\<forall>c v. (c, v) \<in> set cm \<longrightarrow> \<not> ignore c \<longrightarrow> \<not> isl (coerce_stats v)")
    case True
    with Ok x show ?thesis by (simp add: stats_row_Ok same_outcome_refl)
  next
    case False
    then obtain c v where bad: "(c, v) \<in> set cm" "\<not> ignore c" "isl (coerce_stats v)" by blast
    from stats_row_Error [OF Ok [unfolded x] bad, of rank]
         stats_row_Error [OF Ok [unfolded x] bad, of rank']
    show ?thesis by (auto simp: same_outcome_def)
  qed
qed (simp_all add: stats_row_def same_outcome_def)

subsection \<open>Every order of the entries is a range order\<close>

lemma position_map:
  assumes "distinct ks"
  shows "map (\<lambda>c. length (takeWhile (\<lambda>k. k \<noteq> c) ks)) ks = [0 ..< length ks]"
proof (rule nth_equalityI)
  show "length (map (\<lambda>c. length (takeWhile (\<lambda>k. k \<noteq> c) ks)) ks) = length [0 ..< length ks]"
    by simp
next
  fix i
  assume "i < length (map (\<lambda>c. length (takeWhile (\<lambda>k. k \<noteq> c) ks)) ks)"
  then have i: "i < length ks" by simp
  have "takeWhile (\<lambda>k. k \<noteq> ks ! i) ks = take i ks"
  proof (rule takeWhile_eq_take_P_nth)
    fix j
    assume "j < i" "j < length ks"
    with i assms show "ks ! j \<noteq> ks ! i" by (simp add: nth_eq_iff_index_eq)
  next
    show "\<not> ks ! i \<noteq> ks ! i" by simp
  qed
  with i show "map (\<lambda>c. length (takeWhile (\<lambda>k. k \<noteq> c) ks)) ks ! i = [0 ..< length ks] ! i"
    by simp
qed

lemma range_map_any_order:
  assumes "distinct (map fst cm)" and "mset ys = mset cm"
  shows "\<exists>rank. range_map rank cm = ys"
proof -
  define rank where "rank c = length (takeWhile (\<lambda>k. k \<noteq> c) (map fst ys))" for c
  have "mset (map fst ys) = mset (map fst cm)" using assms(2) by simp
  from mset_eq_imp_distinct_iff [OF this] have d: "distinct (map fst ys)"
    using assms(1) by (simp only:)
  have pos: "map (\<lambda>kv. rank (fst kv)) ys = [0 ..< length ys]"
    using position_map [OF d] by (simp add: rank_def comp_def)
  then have "distinct (map (\<lambda>kv. rank (fst kv)) ys)" by simp
  then have "inj_on (\<lambda>kv. rank (fst kv)) (set ys)" by (simp add: distinct_map)
  moreover have "set ys = set cm" using assms(2) by (rule mset_eq_setD)
  ultimately have inj: "inj_on (\<lambda>kv. rank (fst kv)) (set cm)" by simp
  have "sorted (map (\<lambda>kv. rank (fst kv)) ys)" unfolding pos by simp
  with assms(2) inj have "sort_key (\<lambda>kv. rank (fst kv)) cm = ys"
    by (intro sort_key_inj_key_eq) simp_all
  then show ?thesis unfolding range_map_def by blast
qed

subsection \<open>The loops over the rows\<close>

lemma AddFields_metric: "AddFields (measurement m) (fieldset m) (tagset m) acc = acc @ [m]"
  by (cases m) (simp add: AddFields_def)

lemma stats_rows_acc:
  "stats_rows p ord columns rs acc =
     (acc @ fst (stats_rows p ord columns rs []), snd (stats_rows p ord columns rs []))"
proof (induction rs arbitrary: ord acc)
  case Nil
  show ?case by simp
next
  case (Cons r rs)
  show ?case
  proof (cases "stats_row p (ord 0) columns r")
    case (Ok m)
    let ?X = "stats_rows p (\<lambda>k. ord (Suc k)) columns rs"
    have a: "stats_rows p ord columns (r # rs) acc = ?X (acc @ [m])"
      using Ok by (simp add: AddFields_metric)
    have b: "stats_rows p ord columns (r # rs) [] = ?X [m]"
      using Ok by (simp add: AddFields_metric)
    have c: "?X (acc @ [m]) = ((acc @ [m]) @ fst (?X []), snd (?X []))" by (rule Cons.IH)
    have d: "?X [m] = ([m] @ fst (?X []), snd (?X []))" by (rule Cons.IH)
    show ?thesis unfolding a b c d by simp
  qed simp_all
qed

lemma pool_rows_acc:
  "pool_rows p ord columns rs acc =
     (acc @ fst (pool_rows p ord columns rs []), snd (pool_rows p ord columns rs []))"
proof (induction rs arbitrary: ord acc)
  case Nil
  show ?case by simp
next
  case (Cons r rs)
  show ?case
  proof (cases "pool_row p (ord 0) columns r")
    case (Ok m)
    let ?X = "pool_rows p (\<lambda>k. ord (Suc k)) columns rs"
    have a: "pool_rows p ord columns (r # rs) acc = ?X (acc @ [m])"
      using Ok by (simp add: AddFields_metric)
    have b: "pool_rows p ord columns (r # rs) [] = ?X [m]"
      using Ok by (simp add: AddFields_metric)
    have c: "?X (acc @ [m]) = ((acc @ [m]) @ fst (?X []), snd (?X []))" by (rule Cons.IH)
    have d: "?X [m] = ([m] @ fst (?X []), snd (?X []))" by (rule Cons.IH)
    show ?thesis unfolding a b c d by simp
  qed simp_all
qed

lemma stats_rows_append:
  "stats_rows p ord columns (pre @ post) acc =
     (case stats_rows p ord columns pre acc of
        (acc1, Ok u) \<Rightarrow> stats_rows p (\<lambda>k. ord (length pre + k)) columns post acc1
      | (acc1, out) \<Rightarrow> (acc1, out))"
proof (induction pre arbitrary: ord acc)
  case Nil
  show ?case by simp
next
  case (Cons r pre)
  show ?case
  proof (cases "stats_row p (ord 0) columns r")
    case (Ok m)
    have s: "(\<lambda>k. ord (Suc (length pre + k))) = (\<lambda>k. ord (length (r # pre) + k))" by simp
    show ?thesis
      using Ok by (simp add: Cons.IH s del: length_Cons list.size split: prod.splits res.splits)
  qed simp_all
qed

lemma stats_rows_rank:
  "fst (stats_rows p ord columns rs acc) = fst (stats_rows p ord' columns rs acc) \<and>
   same_outcome (snd (stats_rows p ord columns rs acc)) (snd (stats_rows p ord' columns rs acc))"
proof (induction rs arbitrary: ord ord' acc)
  case Nil
  show ?case by (simp add: same_outcome_def)
next
  case (Cons r rs)
  note so = stats_row_rank [of p "ord 0" columns r "ord' 0"]
  show ?case
  proof (cases "stats_row p (ord 0) columns r")
    case (Ok m)
    with so have "stats_row p (ord' 0) columns r = Ok m" by (simp add: same_outcome_def)
    with Ok show ?thesis
      using Cons.IH [where ord = "\<lambda>k. ord (Suc k)" and ord' = "\<lambda>k. ord' (Suc k)"] by simp
  next
    case (Error e)
    with so obtain e' where "stats_row p (ord' 0) columns r = Error e'"
      by (cases "stats_row p (ord' 0) columns r") (simp_all add: same_outcome_def)
    with Error show ?thesis by (simp add: same_outcome_def)
  next
    case Panic
    with so have "stats_row p (ord' 0) columns r = Panic" by (simp add: same_outcome_def)
    with Panic show ?thesis by (simp add: same_outcome_def)
  qed
qed

lemma pool_rows_rank: "pool_rows p ord columns rs acc = pool_rows p ord' columns rs acc"
proof (induction rs arbitrary: ord ord' acc)
  case Nil
  show ?case by simp
next
  case (Cons r rs)
  have "pool_row p (ord 0) columns r = pool_row p (ord' 0) columns r" by (rule pool_row_rank)
  then show ?case
    by (cases "pool_row p (ord' 0) columns r")
       (simp_all add: Cons.IH [where ord = "\<lambda>k. ord (Suc k)" and ord' = "\<lambda>k. ord' (Suc k)"])
qed

lemma gather_pools_rank: "gather_pools p ord acc = gather_pools p ord' acc"
proof -
  have pr: "pool_rows p ord columns rs acc = pool_rows p ord' columns rs acc" for columns rs
    by (rule pool_rows_rank)
  show ?thesis unfolding gather_pools_def pr ..
qed

lemma gather_pools_acc:
  "gather_pools p ord acc = (acc @ fst (gather_pools p ord []), snd (gather_pools p ord []))"
proof (cases "Query p ''SHOW POOLS''")
  case (Inl e)
  then show ?thesis by (simp add: gather_pools_def)
next
  case (Inr poolRows)
  show ?thesis
  proof (cases "rows_Columns poolRows")
    case (Inl e)
    with Inr show ?thesis by (simp add: gather_pools_def)
  next
    case cols: (Inr columns)
    obtain ms out where X: "pool_rows p ord columns (rows_Next poolRows) [] = (ms, out)"
      by (cases "pool_rows p ord columns (rows_Next poolRows) []")
    then have Y: "pool_rows p ord columns (rows_Next poolRows) acc = (acc @ ms, out)"
      by (subst pool_rows_acc) simp
    show ?thesis
      using Inr cols X Y
      by (cases out; cases "rows_Err poolRows") (simp_all add: gather_pools_def)
  qed
qed

lemma Gather_acc:
  "Gather p ord acc = (acc @ fst (Gather p ord []), snd (Gather p ord []))"
proof (cases "Query p ''SHOW STATS''")
  case (Inl e)
  then show ?thesis by (simp add: Gather_def)
next
  case (Inr rows)
  show ?thesis
  proof (cases "rows_Columns rows")
    case (Inl e)
    with Inr show ?thesis by (simp add: Gather_def)
  next
    case cols: (Inr columns)
    obtain ms out where X: "stats_rows p ord columns (rows_Next rows) [] = (ms, out)"
      by (cases "stats_rows p ord columns (rows_Next rows) []")
    then have Y: "stats_rows p ord columns (rows_Next rows) acc = (acc @ ms, out)"
      by (subst stats_rows_acc) simp
    let ?o = "\<lambda>k. ord (length (rows_Next rows) + k)"
    have P: "gather_pools p ?o (acc @ ms) = (acc @ ms @ fst (gather_pools p ?o []), snd (gather_pools p ?o []))"
      by (subst gather_pools_acc) simp
    have Q: "gather_pools p ?o ms = (ms @ fst (gather_pools p ?o []), snd (gather_pools p ?o []))"
      by (subst gather_pools_acc) simp
    show ?thesis
      using Inr cols X Y P Q
      by (cases out; cases "rows_Err rows") (simp_all add: Gather_def)
  qed
qed

lemma Gather_rank:
  "fst (Gather p ord acc) = fst (Gather p ord' acc) \<and>
   same_outcome (snd (Gather p ord acc)) (snd (Gather p ord' acc))"
proof (cases "Query p ''SHOW STATS''")
  case (Inl e)
  then show ?thesis by (simp add: Gather_def same_outcome_def)
next
  case (Inr rows)
  show ?thesis
  proof (cases "rows_Columns rows")
    case (Inl e)
    with Inr show ?thesis by (simp add: Gather_def same_outcome_def)
  next
    case cols: (Inr columns)
    obtain ms out where X: "stats_rows p ord columns (rows_Next rows) acc = (ms, out)"
      by (cases "stats_rows p ord columns (rows_Next rows) acc")
    obtain ms' out' where Y: "stats_rows p ord' columns (rows_Next rows) acc = (ms', out')"
      by (cases "stats_rows p ord' columns (rows_Next rows) acc")
    from stats_rows_rank [of p ord columns "rows_Next rows" acc ord'] X Y
    have ms: "ms' = ms" and so: "same_outcome out out'" by simp_all
    let ?o = "\<lambda>k. ord (length (rows_Next rows) + k)"
    let ?o' = "\<lambda>k. ord' (length (rows_Next rows) + k)"
    have P: "gather_pools p ?o ms = gather_pools p ?o' ms" by (rule gather_pools_rank)
    show ?thesis
      using Inr cols X Y ms so P
      by (cases out; cases out'; cases "rows_Err rows")
         (simp_all add: Gather_def same_outcome_def split: res.splits)
  qed
qed

subsection \<open>Parse errors, the ignore set, and completed loops\<close>

lemma ParseInt_error: "ParseInt s = Inl e \<Longrightarrow> \<exists>err. e = NumError ''ParseInt'' s err"
  by (auto simp: ParseInt_def Let_def split: if_splits prod.splits option.splits strconv_err.splits)

lemma coerce_stats_isl: "isl (coerce_stats v) \<longleftrightarrow> (\<exists>s e. v = VString s \<and> ParseInt s = Inl e)"
  by (cases v) (auto simp: coerce_stats_def split: sum.splits)

lemma stats_rows_Ok:
  "stats_rows p ord columns rs acc = (acc1, Ok ()) \<Longrightarrow>
   \<exists>ms. acc1 = acc @ ms \<and> length ms = length rs \<and> (\<forall>m \<in> set ms. measurement m = ''odyssey'')"
proof (induction rs arbitrary: ord acc)
  case Nil
  then show ?case by simp
next
  case (Cons r rs)
  from Cons.prems obtain m where m: "stats_row p (ord 0) columns r = Ok m"
    by (cases "stats_row p (ord 0) columns r") simp_all
  then have nm: "measurement m = ''odyssey''"
    by (auto simp: stats_row_def split: res.splits sum.splits prod.splits)
  from Cons.prems m have "stats_rows p (\<lambda>k. ord (Suc k)) columns rs (acc @ [m]) = (acc1, Ok ())"
    by (simp add: AddFields_metric)
  from Cons.IH [OF this] obtain ms where
    "acc1 = (acc @ [m]) @ ms" "length ms = length rs" "\<forall>m \<in> set ms. measurement m = ''odyssey''"
    by blast
  with nm have "acc1 = acc @ (m # ms) \<and> length (m # ms) = length (r # rs) \<and>
      (\<forall>m \<in> set (m # ms). measurement m = ''odyssey'')" by simp
  then show ?case by blast
qed

lemmas ParseInt_eval =
  ParseInt_def ParseUint_def is_digit_def digit_val_def maxUint64_def
  word_le_nat_alt word_less_nat_alt

lemma ignore_iff:
  "ignore c \<longleftrightarrow>
     c \<in> {''user'', ''database'', ''pool_mode'', ''avg_req'', ''avg_recv'', ''avg_sent'', ''avg_query''}"
  unfolding ignore_def ignoredColumns_def map_of_eq_None_iff by simp

subsection \<open>What a row body returns\<close>

lemma stats_row_OkD:
  assumes "accRow p r columns = Ok (tgs, cm)" and "stats_row p rank columns r = Ok m"
  shows "m = \<lparr>measurement = ''odyssey'', fieldset = spec_stats_fields cm, tagset = tgs\<rparr>"
proof (cases "\<forall>c v. (c, v) \<in> set cm \<longrightarrow> \<not> ignore c \<longrightarrow> \<not> isl (coerce_stats v)")
  case True
  from stats_row_Ok [OF assms(1) True, of rank] assms(2) show ?thesis by simp
next
  case False
  then obtain c v where "(c, v) \<in> set cm" "\<not> ignore c" "isl (coerce_stats v)" by blast
  from stats_row_Error [OF assms(1) this, of rank] assms(2) show ?thesis by auto
qed

lemma spec_fields_ignored:
  "ignore c \<Longrightarrow> spec_stats_fields cm c = None"
  "ignore c \<Longrightarrow> spec_pool_fields cm c = None"
  by (simp_all add: spec_stats_fields_def spec_pool_fields_def split: option.splits)

subsection \<open>The server tag\<close>

lemma accRow_server:
  assumes "accRow p r columns = Ok (tgs, cm)"
  shows "\<exists>a. SanitizedAddress p = Inr a \<and> tgs ''server'' = Some a"
  using accRow_OkD(4) [OF assms] by auto

lemma row_server:
  assumes "stats_row p rank columns r = Ok m \<or> pool_row p rank columns r = Ok m"
  shows "\<exists>a. SanitizedAddress p = Inr a \<and> tagset m ''server'' = Some a"
proof (cases "accRow p r columns")
  case (Ok x)
  obtain tgs cm where x: "x = (tgs, cm)" by (cases x)
  from accRow_server [OF Ok [unfolded x]] obtain a where
    a: "SanitizedAddress p = Inr a" "tgs ''server'' = Some a" by blast
  from assms show ?thesis
  proof
    assume "stats_row p rank columns r = Ok m"
    from stats_row_OkD [OF Ok [unfolded x] this] a show ?thesis by simp
  next
    assume "pool_row p rank columns r = Ok m"
    then have "tagset m = tag_from_column ''pool_mode'' cm (tag_from_column ''user'' cm tgs)"
      using pool_row_Ok [OF Ok [unfolded x], of rank] by auto
    then have "tagset m ''server'' = tgs ''server''"
      by (simp add: tag_from_column_def split: option.splits colvalue.splits)
    with a show ?thesis by simp
  qed
next
  case (Error e)
  with assms show ?thesis by (simp add: stats_row_def pool_row_def)
next
  case Panic
  with assms show ?thesis by (simp add: stats_row_def pool_row_def)
qed

lemma accRow_sanitizer:
  assumes "SanitizedAddress p = SanitizedAddress p'"
  shows "accRow p r columns = accRow p' r columns"
  unfolding accRow_def assms ..

subsection \<open>The server tag over a whole cycle\<close>

lemma stats_rows_server:
  assumes "\<forall>m \<in> set acc. \<exists>a. SanitizedAddress p = Inr a \<and> tagset m ''server'' = Some a"
  shows "\<forall>m \<in> set (fst (stats_rows p ord columns rs acc)).
           \<exists>a. SanitizedAddress p = Inr a \<and> tagset m ''server'' = Some a"
  using assms
proof (induction rs arbitrary: ord acc)
  case Nil
  then show ?case by simp
next
  case (Cons r rs)
  show ?case
  proof (cases "stats_row p (ord 0) columns r")
    case (Ok m)
    then have "stats_row p (ord 0) columns r = Ok m \<or> pool_row p (ord 0) columns r = Ok m" ..
    from row_server [OF this] Cons.prems
    have "\<forall>m \<in> set (acc @ [m]). \<exists>a. SanitizedAddress p = Inr a \<and> tagset m ''server'' = Some a"
      by simp
    from Cons.IH [OF this] Ok show ?thesis by (simp add: AddFields_metric)
  next
    case (Error e)
    with Cons.prems show ?thesis by simp
  next
    case Panic
    with Cons.prems show ?thesis by simp
  qed
qed

lemma pool_rows_server:
  assumes "\<forall>m \<in> set acc. \<exists>a. SanitizedAddress p = Inr a \<and> tagset m ''server'' = Some a"
  shows "\<forall>m \<in> set (fst (pool_rows p ord columns rs acc)).
           \<exists>a. SanitizedAddress p = Inr a \<and> tagset m ''server'' = Some a"
  using assms
proof (induction rs arbitrary: ord acc)
  case Nil
  then show ?case by simp
next
  case (Cons r rs)
  show ?case
  proof (cases "pool_row p (ord 0) columns r")
    case (Ok m)
    then have "stats_row p (ord 0) columns r = Ok m \<or> pool_row p (ord 0) columns r = Ok m" ..
    from row_server [OF this] Cons.prems
    have "\<forall>m \<in> set (acc @ [m]). \<exists>a. SanitizedAddress p = Inr a \<and> tagset m ''server'' = Some a"
      by simp
    from Cons.IH [OF this] Ok show ?thesis by (simp add: AddFields_metric)
  next
    case (Error e)
    with Cons.prems show ?thesis by simp
  next
    case Panic
    with Cons.prems show ?thesis by simp
  qed
qed

lemma gather_pools_server:
  assumes "\<forall>m \<in> set acc. \<exists>a. SanitizedAddress p = Inr a \<and> tagset m ''server'' = Some a"
  shows "\<forall>m \<in> set (fst (gather_pools p ord acc)).
           \<exists>a. SanitizedAddress p = Inr a \<and> tagset m ''server'' = Some a"
proof (cases "Query p ''SHOW POOLS''")
  case (Inl e)
  with assms show ?thesis by (simp add: gather_pools_def)
next
  case (Inr poolRows)
  show ?thesis
  proof (cases "rows_Columns poolRows")
    case (Inl e)
    with Inr assms show ?thesis by (simp add: gather_pools_def)
  next
    case cols: (Inr columns)
    obtain acc1 out where X: "pool_rows p ord columns (rows_Next poolRows) acc = (acc1, out)"
      by (cases "pool_rows p ord columns (rows_Next poolRows) acc")
    from pool_rows_server [OF assms, of ord columns "rows_Next poolRows"] X
    have "\<forall>m \<in> set acc1. \<exists>a. SanitizedAddress p = Inr a \<and> tagset m ''server'' = Some a"
      by simp
    moreover have "fst (gather_pools p ord acc) = acc1"
      using Inr cols X by (cases out; cases "rows_Err poolRows") (simp_all add: gather_pools_def)
    ultimately show ?thesis by simp
  qed
qed

lemma Gather_server:
  assumes "\<forall>m \<in> set acc. \<exists>a. SanitizedAddress p = Inr a \<and> tagset m ''server'' = Some a"
  shows "\<forall>m \<in> set (fst (Gather p ord acc)).
           \<exists>a. SanitizedAddress p = Inr a \<and> tagset m ''server'' = Some a"
proof (cases "Query p ''SHOW STATS''")
  case (Inl e)
  with assms show ?thesis by (simp add: Gather_def)
next
  case (Inr rows)
  show ?thesis
  proof (cases "rows_Columns rows")
    case (Inl e)
    with Inr assms show ?thesis by (simp add: Gather_def)
  next
    case cols: (Inr columns)
    obtain acc1 out where X: "stats_rows p ord columns (rows_Next rows) acc = (acc1, out)"
      by (cases "stats_rows p ord columns (rows_Next rows) acc")
    from stats_rows_server [OF assms, of ord columns "rows_Next rows"] X
    have s: "\<forall>m \<in> set acc1. \<exists>a. SanitizedAddress p = Inr a \<and> tagset m ''server'' = Some a"
      by simp
    note g = gather_pools_server [OF s, of "\<lambda>k. ord (length (rows_Next rows) + k)"]
    show ?thesis
      using Inr cols X s g by (cases out; cases "rows_Err rows") (simp_all add: Gather_def)
  qed
qed

lemma Gather_failing_sanitizer:
  assumes "SanitizedAddress p = Inl e"
  shows "fst (Gather p ord acc) = acc"
proof -
  have "\<forall>m \<in> set (fst (Gather p ord [])).
          \<exists>a. SanitizedAddress p = Inr a \<and> tagset m ''server'' = Some a"
    by (rule Gather_server) simp
  with assms have "set (fst (Gather p ord [])) = {}" by auto
  then have "fst (Gather p ord []) = []" by simp
  then show ?thesis by (subst Gather_acc) simp
qed

section \<open>The claims\<close>

subsection \<open>C1: the db tag\<close>

text \<open>
  C1. The claim: the \<open>db\<close> tag is the value of the \<open>database\<close> column when that column
  exists and holds a non-null string, and the literal \<open>postgres\<close> otherwise. On a
  statistics result set with the columns \<open>database\<close> and \<open>total_xact_count\<close> and one
  row whose \<open>database\<close> cell is NULL, the collection cycle panics and no metric with a
  \<open>db\<close> tag of \<open>postgres\<close> is emitted: the evaluation of \<open>Gather\<close> at that input.
\<close>

theorem C1_null_database_panics:
  "Gather (plugin_of (result_set [''database'', ''total_xact_count''] [[VNil, VInt64 7]])
                     (result_set [] []))
          in_order [] = ([], Panic)"
  by (simp add: Gather_def plugin_of_def result_set_def scanned_def stats_row_def accRow_def
      Scan_def)

subsection \<open>C2: coercion of the statistics-pass values\<close>

text \<open>
  C2. For a statistics-pass row that \<open>accRow\<close> accepted with column map \<open>cm\<close>, and
  every column that is not ignored: a native 64-bit integer is copied unchanged into the
  field set, a string is parsed by \<open>ParseInt\<close> and the parsed integer is stored, and a
  value of any other type is left out without error (this is \<open>coerce_stats\<close>, collected
  over the row by \<open>spec_stats_fields\<close>). When some non-ignored string does not parse,
  the row body returns a parse error of such a column and the loop over the result set stops
  there with that error, the accumulator unchanged; otherwise the row yields the metric with
  exactly these fields and the loop goes on to the next row.
\<close>

theorem C2_stats_coercion:
  assumes "accRow p r columns = Ok (tgs, cm)"
  shows "(if \<exists>c v. (c, v) \<in> set cm \<and> \<not> ignore c \<and> isl (coerce_stats v)
          then \<exists>c s e. (c, VString s) \<in> set cm \<and> \<not> ignore c \<and> ParseInt s = Inl e \<and>
                 stats_row p (ord 0) columns r = Error e \<and>
                 stats_rows p ord columns (r # rs) acc = (acc, Error e)
          else stats_row p (ord 0) columns r =
                 Ok \<lparr>measurement = ''odyssey'', fieldset = spec_stats_fields cm, tagset = tgs\<rparr> \<and>
               stats_rows p ord columns (r # rs) acc =
                 stats_rows p (\<lambda>k. ord (Suc k)) columns rs
                   (acc @ [\<lparr>measurement = ''odyssey'', fieldset = spec_stats_fields cm,
                            tagset = tgs\<rparr>]))"
proof (cases "\<exists>c v. (c, v) \<in> set cm \<and> \<not> ignore c \<and> isl (coerce_stats v)")
  case True
  then obtain c v where "(c, v) \<in> set cm" "\<not> ignore c" "isl (coerce_stats v)" by blast
  from stats_row_Error [OF assms this, of "ord 0"] obtain c' s' e' where
    "(c', VString s') \<in> set cm" "\<not> ignore c'" "ParseInt s' = Inl e'"
    "stats_row p (ord 0) columns r = Error e'" by blast
  moreover from this have "stats_rows p ord columns (r # rs) acc = (acc, Error e')" by simp
  ultimately show ?thesis using True by (simp only: if_True) blast
next
  case False
  then have "\<forall>c v. (c, v) \<in> set cm \<longrightarrow> \<not> ignore c \<longrightarrow> \<not> isl (coerce_stats v)" by blast
  from stats_row_Ok [OF assms this, of "ord 0"] False show ?thesis
    by (simp add: AddFields_def)
qed

theorem C2_stats_coercion_witness:
  "accRow (plugin_of (result_set [] []) (result_set [] []))
     (scanned [VString ''app'', VInt64 42, VString ''17'', VString ''oops'', VFloat64 0])
     [''database'', ''total_xact_count'', ''total_query_count'', ''avg_req'', ''ratio'']
   = Ok ([''server'' \<mapsto> ''host=localhost'', ''db'' \<mapsto> ''app''],
         [(''database'', VString ''app''), (''total_xact_count'', VInt64 42),
          (''total_query_count'', VString ''17''), (''avg_req'', VString ''oops''),
          (''ratio'', VFloat64 0)]) \<and>
   (\<exists>m. stats_row (plugin_of (result_set [] []) (result_set [] [])) (in_order 0)
          [''database'', ''total_xact_count'', ''total_query_count'', ''avg_req'', ''ratio'']
          (scanned [VString ''app'', VInt64 42, VString ''17'', VString ''oops'', VFloat64 0])
        = Ok m \<and>
        fieldset m ''total_xact_count'' = Some (VInt64 42) \<and>
        fieldset m ''total_query_count'' = Some (VInt64 17) \<and>
        fieldset m ''ratio'' = None \<and>
        fieldset m ''avg_req'' = None)"
proof -
  let ?p = "plugin_of (result_set [] []) (result_set [] [])"
  let ?cols = "[''database'', ''total_xact_count'', ''total_query_count'', ''avg_req'', ''ratio'']"
  let ?r = "scanned [VString ''app'', VInt64 42, VString ''17'', VString ''oops'', VFloat64 0]"
  let ?cm = "[(''database'', VString ''app''), (''total_xact_count'', VInt64 42),
          (''total_query_count'', VString ''17''), (''avg_req'', VString ''oops''),
          (''ratio'', VFloat64 0)]"
  have h: "accRow ?p ?r ?cols = Ok ([''server'' \<mapsto> ''host=localhost'', ''db'' \<mapsto> ''app''], ?cm)"
    by (simp add: accRow_def Scan_def scanned_def plugin_of_def)
  have p17: "ParseInt ''17'' = Inr 17"
    by (simp add: ParseInt_eval)
  have "\<forall>x \<in> set ?cm. ignore (fst x) \<or> \<not> isl (coerce_stats (snd x))"
    by (simp add: ignore_iff coerce_stats_def p17)
  then have nb: "\<not> (\<exists>c v. (c, v) \<in> set ?cm \<and> \<not> ignore c \<and> isl (coerce_stats v))"
    by fastforce
  have f: "spec_stats_fields ?cm ''total_xact_count'' = Some (VInt64 42)"
      "spec_stats_fields ?cm ''total_query_count'' = Some (VInt64 17)"
      "spec_stats_fields ?cm ''ratio'' = None"
      "spec_stats_fields ?cm ''avg_req'' = None"
    by (simp_all add: spec_stats_fields_def coerce_stats_def ignore_iff p17)
  from C2_stats_coercion [OF h, of in_order "[]" "[]"] nb
  have "stats_row ?p (in_order 0) ?cols ?r =
          Ok \<lparr>measurement = ''odyssey'', fieldset = spec_stats_fields ?cm,
              tagset = [''server'' \<mapsto> ''host=localhost'', ''db'' \<mapsto> ''app'']\<rparr>"
    by (simp only: if_False)
  with h f show ?thesis by simp
qed

subsection \<open>C3: a parse failure and the metrics of the cycle\<close>

text \<open>
  C3, as stated: when some statistics row holds a non-ignored string that is not a base-10
  64-bit integer, the cycle fails with an error and no metric is emitted for that cycle.
  The second half fails: \<open>AddFields\<close> is called row by row, so the metrics of the rows
  before the failing one have already been handed to the accumulator. Here the second row
  fails to parse and the metric of the first row has been emitted.
\<close>

theorem C3_counterexample:
  "Gather (plugin_of (result_set [''foo''] [[VInt64 1], [VString ''abc'']]) (result_set [] []))
          in_order []
   = ([\<lparr>measurement = ''odyssey'', fieldset = [''foo'' \<mapsto> VInt64 1],
        tagset = [''server'' \<mapsto> ''host=localhost'', ''db'' \<mapsto> ''postgres'']\<rparr>],
      Error (NumError ''ParseInt'' ''abc'' ErrSyntax))"
  by (simp add: Gather_def plugin_of_def result_set_def scanned_def stats_row_def accRow_def
      Scan_def range_map_def ignore_iff ParseInt_eval AddFields_def)

text \<open>
  C3, amended: when a statistics row that \<open>accRow\<close> accepted holds a non-ignored string
  that \<open>ParseInt\<close> rejects, and the rows before it were all processed, \<open>Gather\<close>
  returns a parse error; the metrics emitted in the cycle are exactly those of the earlier
  statistics rows (one each): none for the failing row, none for a later row, none for the
  pool-status pass.
\<close>

theorem C3_parse_failure_aborts_cycle:
  assumes "Query p ''SHOW STATS'' = Inr rows" and "rows_Columns rows = Inr columns"
    and "rows_Next rows = pre @ r # post"
    and "stats_rows p ord columns pre acc = (acc1, Ok ())"
    and "accRow p r columns = Ok (tgs, cm)"
    and "(col, VString s) \<in> set cm" and "\<not> ignore col" and "ParseInt s = Inl e"
  shows "\<exists>num err ms. Gather p ord acc = (acc1, Error (NumError ''ParseInt'' num err)) \<and>
           acc1 = acc @ ms \<and> length ms = length pre \<and>
           (\<forall>m \<in> set ms. measurement m = ''odyssey'')"
proof -
  have bad: "isl (coerce_stats (VString s))" using assms(8) by (simp add: coerce_stats_def)
  from stats_row_Error [OF assms(5,6,7) bad, of "ord (length pre + 0)"]
  obtain c' s' e' where e': "ParseInt s' = Inl e'"
    and row: "stats_row p (ord (length pre + 0)) columns r = Error e'" by blast
  from ParseInt_error [OF e'] obtain err where err: "e' = NumError ''ParseInt'' s' err" ..
  have "stats_rows p ord columns (pre @ r # post) acc = (acc1, Error e')"
    unfolding stats_rows_append assms(4) using row by simp
  then have "Gather p ord acc = (acc1, Error e')"
    using assms(1,2,3) by (simp add: Gather_def)
  moreover from stats_rows_Ok [OF assms(4)] obtain ms where
    "acc1 = acc @ ms" "length ms = length pre" "\<forall>m \<in> set ms. measurement m = ''odyssey''"
    by blast
  ultimately show ?thesis using err by blast
qed

theorem C3_parse_failure_aborts_cycle_witness:
  "Query (plugin_of (result_set [''foo''] [[VInt64 1], [VString ''abc''], [VInt64 3]])
                    (result_set [''cl_active''] [[VInt64 9]])) ''SHOW STATS''
     = Inr (result_set [''foo''] [[VInt64 1], [VString ''abc''], [VInt64 3]]) \<and>
   accRow (plugin_of (result_set [''foo''] [[VInt64 1], [VString ''abc''], [VInt64 3]])
                     (result_set [''cl_active''] [[VInt64 9]]))
          (scanned [VString ''abc'']) [''foo'']
     = Ok ([''server'' \<mapsto> ''host=localhost'', ''db'' \<mapsto> ''postgres''], [(''foo'', VString ''abc'')]) \<and>
   \<not> ignore ''foo'' \<and>
   ParseInt ''abc'' = Inl (NumError ''ParseInt'' ''abc'' ErrSyntax) \<and>
   (\<exists>num err.
      Gather (plugin_of (result_set [''foo''] [[VInt64 1], [VString ''abc''], [VInt64 3]])
                        (result_set [''cl_active''] [[VInt64 9]])) in_order []
      = ([\<lparr>measurement = ''odyssey'', fieldset = [''foo'' \<mapsto> VInt64 1],
           tagset = [''server'' \<mapsto> ''host=localhost'', ''db'' \<mapsto> ''postgres'']\<rparr>],
         Error (NumError ''ParseInt'' num err)))"
proof -
  let ?stats = "result_set [''foo''] [[VInt64 1], [VString ''abc''], [VInt64 3]]"
  let ?p = "plugin_of ?stats (result_set [''cl_active''] [[VInt64 9]])"
  let ?m = "\<lparr>measurement = ''odyssey'', fieldset = [''foo'' \<mapsto> VInt64 1],
           tagset = [''server'' \<mapsto> ''host=localhost'', ''db'' \<mapsto> ''postgres'']\<rparr>"
  have q: "Query ?p ''SHOW STATS'' = Inr ?stats" by (simp add: plugin_of_def)
  have c: "rows_Columns ?stats = Inr [''foo'']" by (simp add: result_set_def)
  have n: "rows_Next ?stats = [scanned [VInt64 1]] @ scanned [VString ''abc''] # [scanned [VInt64 3]]"
    by (simp add: result_set_def)
  have pre: "stats_rows ?p in_order [''foo''] [scanned [VInt64 1]] [] = ([?m], Ok ())"
    by (simp add: plugin_of_def scanned_def stats_row_def accRow_def Scan_def range_map_def
        ignore_iff AddFields_def)
  have a: "accRow ?p (scanned [VString ''abc'']) [''foo'']
     = Ok ([''server'' \<mapsto> ''host=localhost'', ''db'' \<mapsto> ''postgres''], [(''foo'', VString ''abc'')])"
    by (simp add: plugin_of_def scanned_def accRow_def Scan_def)
  have m: "(''foo'', VString ''abc'') \<in> set [(''foo'', VString ''abc'')]" by simp
  have i: "\<not> ignore ''foo''" by (simp add: ignore_iff)
  have pe: "ParseInt ''abc'' = Inl (NumError ''ParseInt'' ''abc'' ErrSyntax)"
    by (simp add: ParseInt_eval)
  from C3_parse_failure_aborts_cycle [OF q c n pre a m i pe] q a i pe
  show ?thesis by auto
qed

subsection \<open>C4: the statistics example row\<close>

text \<open>
  C4. A statistics row that scans into exactly the columns \<open>user = "bob"\<close>,
  \<open>database = "app"\<close>, \<open>avg_req = "5"\<close> and \<open>total_xact_count = 42\<close> (a native
  integer), in whatever order the result set lists them, yields for every range order the
  metric named \<open>odyssey\<close> whose tags are exactly \<open>server\<close> (the sanitized address)
  and \<open>db = "app"\<close> and whose fields are exactly \<open>total_xact_count = 42\<close>; the loop
  hands this metric to the accumulator.
\<close>

theorem C4_stats_example:
  assumes "SanitizedAddress p = Inr addr"
    and "scan_error r = None" and "distinct columns" and "length (cells r) = length columns"
    and "set (zip columns (cells r)) =
           {(''user'', VString ''bob''), (''database'', VString ''app''),
            (''avg_req'', VString ''5''), (''total_xact_count'', VInt64 42)}"
  shows "stats_row p rank columns r
         = Ok \<lparr>measurement = ''odyssey'',
               fieldset = [''total_xact_count'' \<mapsto> VInt64 42],
               tagset = [''server'' \<mapsto> addr, ''db'' \<mapsto> ''app'']\<rparr> \<and>
         stats_rows p ord columns [r] acc
         = (acc @ [\<lparr>measurement = ''odyssey'',
                     fieldset = [''total_xact_count'' \<mapsto> VInt64 42],
                     tagset = [''server'' \<mapsto> addr, ''db'' \<mapsto> ''app'']\<rparr>], Ok ())"
proof -
  let ?cm = "zip columns (cells r)"
  let ?tgs = "[''server'' \<mapsto> addr, ''db'' \<mapsto> ''app'']"
  have d: "distinct (map fst ?cm)" using assms(3,4) by simp
  note mo = map_of_eq_Some_iff [OF d]
  have u: "map_of ?cm ''user'' = Some (VString ''bob'')"
    and db: "map_of ?cm ''database'' = Some (VString ''app'')"
    and av: "map_of ?cm ''avg_req'' = Some (VString ''5'')"
    and tx: "map_of ?cm ''total_xact_count'' = Some (VInt64 42)"
    unfolding mo assms(5) by simp_all
  have other: "map_of ?cm c = None"
    if "c \<noteq> ''user''" "c \<noteq> ''database''" "c \<noteq> ''avg_req''" "c \<noteq> ''total_xact_count''" for c
    unfolding map_of_eq_None_iff assms(5) using that by simp
  have h: "accRow p r columns = Ok (?tgs, ?cm)"
    unfolding accRow_wf [OF assms(2,3,4)] db using assms(1) by simp
  have nb: "\<forall>c v. (c, v) \<in> set ?cm \<longrightarrow> \<not> ignore c \<longrightarrow> \<not> isl (coerce_stats v)"
    unfolding assms(5) by (simp add: ignore_iff coerce_stats_def)
  have f: "spec_stats_fields ?cm = [''total_xact_count'' \<mapsto> VInt64 42]"
  proof (rule ext)
    fix c
    consider "c = ''user''" | "c = ''database''" | "c = ''avg_req''"
      | "c = ''total_xact_count''"
      | "c \<noteq> ''user''" "c \<noteq> ''database''" "c \<noteq> ''avg_req''" "c \<noteq> ''total_xact_count''"
      by argo
    then show "spec_stats_fields ?cm c = [''total_xact_count'' \<mapsto> VInt64 42] c"
    proof cases
      case 1
      then show ?thesis by (simp add: spec_stats_fields_def u ignore_iff)
    next
      case 2
      then show ?thesis by (simp add: spec_stats_fields_def db ignore_iff)
    next
      case 3
      then show ?thesis by (simp add: spec_stats_fields_def av ignore_iff)
    next
      case 4
      then show ?thesis by (simp add: spec_stats_fields_def tx ignore_iff coerce_stats_def)
    next
      case 5
      then show ?thesis by (simp add: spec_stats_fields_def other)
    qed
  qed
  have row: "stats_row p rank columns r = Ok \<lparr>measurement = ''odyssey'',
               fieldset = [''total_xact_count'' \<mapsto> VInt64 42], tagset = ?tgs\<rparr>" for rank
    using stats_row_Ok [OF h nb, of rank] f by simp
  show ?thesis using row by (simp add: AddFields_def)
qed

theorem C4_stats_example_witness:
  "SanitizedAddress (plugin_of (result_set [] []) (result_set [] [])) = Inr ''host=localhost'' \<and>
   scan_error (scanned [VInt64 42, VString ''5'', VString ''bob'', VString ''app'']) = None \<and>
   distinct [''total_xact_count'', ''avg_req'', ''user'', ''database''] \<and>
   length (cells (scanned [VInt64 42, VString ''5'', VString ''bob'', VString ''app'']))
     = length [''total_xact_count'', ''avg_req'', ''user'', ''database''] \<and>
   set (zip [''total_xact_count'', ''avg_req'', ''user'', ''database'']
            (cells (scanned [VInt64 42, VString ''5'', VString ''bob'', VString ''app''])))
     = {(''user'', VString ''bob''), (''database'', VString ''app''),
        (''avg_req'', VString ''5''), (''total_xact_count'', VInt64 42)} \<and>
   stats_rows (plugin_of (result_set [] []) (result_set [] [])) in_order
     [''total_xact_count'', ''avg_req'', ''user'', ''database'']
     [scanned [VInt64 42, VString ''5'', VString ''bob'', VString ''app'']] []
   = ([\<lparr>measurement = ''odyssey'',
        fieldset = [''total_xact_count'' \<mapsto> VInt64 42],
        tagset = [''server'' \<mapsto> ''host=localhost'', ''db'' \<mapsto> ''app'']\<rparr>], Ok ())"
proof -
  let ?p = "plugin_of (result_set [] []) (result_set [] [])"
  let ?r = "scanned [VInt64 42, VString ''5'', VString ''bob'', VString ''app'']"
  let ?cols = "[''total_xact_count'', ''avg_req'', ''user'', ''database'']"
  have h1: "SanitizedAddress ?p = Inr ''host=localhost''" by (simp add: plugin_of_def)
  have h2: "scan_error ?r = None" by (simp add: scanned_def)
  have h3: "distinct ?cols" by simp
  have h4: "length (cells ?r) = length ?cols" by (simp add: scanned_def)
  have h5: "set (zip ?cols (cells ?r))
     = {(''user'', VString ''bob''), (''database'', VString ''app''),
        (''avg_req'', VString ''5''), (''total_xact_count'', VInt64 42)}"
    by (simp add: scanned_def insert_commute)
  have g: "stats_rows ?p in_order ?cols [?r] []
     = ([] @ [\<lparr>measurement = ''odyssey'',
        fieldset = [''total_xact_count'' \<mapsto> VInt64 42],
        tagset = [''server'' \<mapsto> ''host=localhost'', ''db'' \<mapsto> ''app'']\<rparr>], Ok ())"
    by (rule C4_stats_example [OF h1 h2 h3 h4 h5, of "in_order 0" in_order "[]", THEN conjunct2])
  then have g': "stats_rows ?p in_order ?cols [?r] []
     = ([\<lparr>measurement = ''odyssey'',
        fieldset = [''total_xact_count'' \<mapsto> VInt64 42],
        tagset = [''server'' \<mapsto> ''host=localhost'', ''db'' \<mapsto> ''app'']\<rparr>], Ok ())"
    by (simp only: append_Nil)
  from h1 h2 h3 h4 h5 g' show ?thesis by (intro conjI) assumption+
qed

subsection \<open>C5: the user and pool_mode tags\<close>

text \<open>
  C5. For a pool-status row that \<open>accRow\<close> accepted with column map \<open>cm\<close>: the
  \<open>user\<close> tag is present, with value \<open>s\<close>, exactly when the \<open>user\<close> column exists
  and holds the non-empty string \<open>s\<close>; likewise the \<open>pool_mode\<close> tag. Whether or not
  a tag was added, neither column is a field. The statistics pass never sets these two tags
  (and never emits the two columns as fields either).
\<close>

theorem C5_pool_tags:
  assumes "accRow p r columns = Ok (tgs, cm)"
  shows "\<exists>m. pool_row p rank columns r = Ok m \<and>
           (\<forall>s. tagset m ''user'' = Some s \<longleftrightarrow> map_of cm ''user'' = Some (VString s) \<and> s \<noteq> []) \<and>
           (\<forall>s. tagset m ''pool_mode'' = Some s \<longleftrightarrow>
                  map_of cm ''pool_mode'' = Some (VString s) \<and> s \<noteq> []) \<and>
           fieldset m ''user'' = None \<and> fieldset m ''pool_mode'' = None \<and>
           (\<forall>m'. stats_row p rank columns r = Ok m' \<longrightarrow>
                  tagset m' ''user'' = None \<and> tagset m' ''pool_mode'' = None \<and>
                  fieldset m' ''user'' = None \<and> fieldset m' ''pool_mode'' = None)"
proof -
  from accRow_OkD(4) [OF assms] obtain a d where
    tgs: "tgs = [''server'' \<mapsto> a, ''db'' \<mapsto> d]" by blast
  let ?m = "\<lparr>measurement = ''odyssey_pools'', fieldset = spec_pool_fields cm,
             tagset = tag_from_column ''pool_mode'' cm (tag_from_column ''user'' cm tgs)\<rparr>"
  have iu: "ignore ''user''" and ip: "ignore ''pool_mode''" by (simp_all add: ignore_iff)
  have u: "tagset ?m ''user'' = Some s \<longleftrightarrow> map_of cm ''user'' = Some (VString s) \<and> s \<noteq> []" for s
    unfolding tgs
    by (auto simp: tag_from_column_def split: option.splits colvalue.splits)
  have pm: "tagset ?m ''pool_mode'' = Some s \<longleftrightarrow> map_of cm ''pool_mode'' = Some (VString s) \<and> s \<noteq> []" for s
    unfolding tgs
    by (auto simp: tag_from_column_def split: option.splits colvalue.splits)
  have st: "tagset m' ''user'' = None \<and> tagset m' ''pool_mode'' = None \<and>
            fieldset m' ''user'' = None \<and> fieldset m' ''pool_mode'' = None"
    if "stats_row p rank columns r = Ok m'" for m'
    using stats_row_OkD [OF assms that] tgs spec_fields_ignored(1) [OF iu]
      spec_fields_ignored(1) [OF ip] by simp
  have "pool_row p rank columns r = Ok ?m" by (rule pool_row_Ok [OF assms])
  moreover have "fieldset ?m ''user'' = None" "fieldset ?m ''pool_mode'' = None"
    using spec_fields_ignored(2) [OF iu] spec_fields_ignored(2) [OF ip] by simp_all
  ultimately show ?thesis using u pm st by blast
qed

theorem C5_pool_tags_witness:
  "accRow (plugin_of (result_set [] []) (result_set [] []))
     (scanned [VString ''bob'', VString '''', VString ''app'', VInt64 3])
     [''user'', ''pool_mode'', ''database'', ''cl_active'']
   = Ok ([''server'' \<mapsto> ''host=localhost'', ''db'' \<mapsto> ''app''],
         [(''user'', VString ''bob''), (''pool_mode'', VString ''''),
          (''database'', VString ''app''), (''cl_active'', VInt64 3)]) \<and>
   (\<exists>m. pool_row (plugin_of (result_set [] []) (result_set [] [])) (in_order 0)
          [''user'', ''pool_mode'', ''database'', ''cl_active'']
          (scanned [VString ''bob'', VString '''', VString ''app'', VInt64 3]) = Ok m \<and>
        tagset m ''user'' = Some ''bob'' \<and> tagset m ''pool_mode'' = None \<and>
        fieldset m ''user'' = None \<and> fieldset m ''pool_mode'' = None)"
proof -
  let ?p = "plugin_of (result_set [] []) (result_set [] [])"
  let ?cols = "[''user'', ''pool_mode'', ''database'', ''cl_active'']"
  let ?r = "scanned [VString ''bob'', VString '''', VString ''app'', VInt64 3]"
  let ?cm = "[(''user'', VString ''bob''), (''pool_mode'', VString ''''),
          (''database'', VString ''app''), (''cl_active'', VInt64 3)]"
  have h: "accRow ?p ?r ?cols = Ok ([''server'' \<mapsto> ''host=localhost'', ''db'' \<mapsto> ''app''], ?cm)"
    by (simp add: accRow_def Scan_def scanned_def plugin_of_def)
  from C5_pool_tags [OF h, of "in_order 0"] show ?thesis
  proof (elim exE conjE)
    fix m
    assume m: "pool_row ?p (in_order 0) ?cols ?r = Ok m"
      and u: "\<forall>s. tagset m ''user'' = Some s \<longleftrightarrow>
                 map_of ?cm ''user'' = Some (VString s) \<and> s \<noteq> []"
      and pm: "\<forall>s. tagset m ''pool_mode'' = Some s \<longleftrightarrow>
                 map_of ?cm ''pool_mode'' = Some (VString s) \<and> s \<noteq> []"
      and f1: "fieldset m ''user'' = None" and f2: "fieldset m ''pool_mode'' = None"
    from u have tu: "tagset m ''user'' = Some ''bob''" by simp
    from pm have "\<forall>s. tagset m ''pool_mode'' \<noteq> Some s" by simp
    then have tp: "tagset m ''pool_mode'' = None" by (cases "tagset m ''pool_mode''") simp_all
    from h m tu tp f1 f2 show ?thesis by (intro conjI exI [of _ m]) assumption+
  qed
qed

subsection \<open>C6: the fields of a pool-status row\<close>



subsection \<open>C7: the server tag and a failing sanitizer\<close>

text \<open>
  C7. Whenever the body of either pass yields a metric for a row, the sanitizer returned an
  address and the metric's \<open>server\<close> tag is that address; and every metric a collection
  cycle adds to the accumulator carries that tag. When the sanitizer fails with \<open>e\<close>, no
  row of either pass yields a metric, the cycle adds nothing to the accumulator, and a cycle
  whose statistics result set has a row does not succeed. For a row on which \<open>accRow\<close>
  gets as far as calling the sanitizer (the scan succeeds, and a \<open>database\<close> column, if
  there is one, holds a string), \<open>accRow\<close> returns \<open>e\<close>, both loops stop at that row
  with \<open>e\<close>, and the cycle aborts: \<open>Gather\<close> returns \<open>e\<close>, whether the row is the
  first of the statistics result set or, after a completed statistics pass, the first of the
  pool-status result set.
\<close>

theorem C7_server_tag:
  "(stats_row p rank columns r = Ok m \<or> pool_row p rank columns r = Ok m \<longrightarrow>
      (\<exists>a. SanitizedAddress p = Inr a \<and> tagset m ''server'' = Some a)) \<and>
   fst (Gather p ord acc) = acc @ fst (Gather p ord []) \<and>
   (\<forall>m \<in> set (fst (Gather p ord [])).
      \<exists>a. SanitizedAddress p = Inr a \<and> tagset m ''server'' = Some a) \<and>
   (SanitizedAddress p = Inl e \<longrightarrow>
      (\<forall>m'. stats_row p rank columns r \<noteq> Ok m' \<and> pool_row p rank columns r \<noteq> Ok m') \<and>
      fst (Gather p ord acc) = acc \<and>
      (Query p ''SHOW STATS'' = Inr rows \<and> rows_Columns rows = Inr columns \<and>
       rows_Next rows = r # rs \<longrightarrow> snd (Gather p ord acc) \<noteq> Ok ()) \<and>
      (scan_error r = None \<and> distinct columns \<and> length (cells r) = length columns \<and>
       (\<forall>v. map_of (zip columns (cells r)) ''database'' = Some v \<longrightarrow> (\<exists>s. v = VString s)) \<longrightarrow>
         accRow p r columns = Error e \<and>
         stats_rows p ord columns (r # rs) acc = (acc, Error e) \<and>
         pool_rows p ord columns (r # rs) acc = (acc, Error e) \<and>
         (Query p ''SHOW STATS'' = Inr rows \<and> rows_Columns rows = Inr columns \<and>
          rows_Next rows = r # rs \<longrightarrow> Gather p ord acc = (acc, Error e)) \<and>
         (Query p ''SHOW STATS'' = Inr rows \<and> rows_Columns rows = Inr statColumns \<and>
          stats_rows p ord statColumns (rows_Next rows) acc = (acc1, Ok ()) \<and>
          rows_Err rows = None \<and>
          Query p ''SHOW POOLS'' = Inr poolRows \<and> rows_Columns poolRows = Inr columns \<and>
          rows_Next poolRows = r # rs \<longrightarrow> Gather p ord acc = (acc1, Error e))))"
proof (intro conjI impI allI)
  assume "stats_row p rank columns r = Ok m \<or> pool_row p rank columns r = Ok m"
  then show "\<exists>a. SanitizedAddress p = Inr a \<and> tagset m ''server'' = Some a"
    by (rule row_server)
next
  show "fst (Gather p ord acc) = acc @ fst (Gather p ord [])"
    by (subst Gather_acc) simp
next
  show "\<forall>m \<in> set (fst (Gather p ord [])).
          \<exists>a. SanitizedAddress p = Inr a \<and> tagset m ''server'' = Some a"
    by (rule Gather_server) simp
next
  fix m'
  assume e: "SanitizedAddress p = Inl e"
  show "stats_row p rank columns r \<noteq> Ok m'"
  proof
    assume "stats_row p rank columns r = Ok m'"
    then have "stats_row p rank columns r = Ok m' \<or> pool_row p rank columns r = Ok m'" ..
    from row_server [OF this] e show False by simp
  qed
  show "pool_row p rank columns r \<noteq> Ok m'"
  proof
    assume "pool_row p rank columns r = Ok m'"
    then have "stats_row p rank columns r = Ok m' \<or> pool_row p rank columns r = Ok m'" ..
    from row_server [OF this] e show False by simp
  qed
next
  assume "SanitizedAddress p = Inl e"
  then show "fst (Gather p ord acc) = acc" by (rule Gather_failing_sanitizer)
next
  assume e: "SanitizedAddress p = Inl e"
    and q: "Query p ''SHOW STATS'' = Inr rows \<and> rows_Columns rows = Inr columns \<and>
       rows_Next rows = r # rs"
  have "stats_row p (ord 0) columns r \<noteq> Ok m'" for m'
  proof
    assume "stats_row p (ord 0) columns r = Ok m'"
    then have "stats_row p (ord 0) columns r = Ok m' \<or> pool_row p (ord 0) columns r = Ok m'" ..
    from row_server [OF this] e show False by simp
  qed
  then have "snd (stats_rows p ord columns (r # rs) acc) \<noteq> Ok ()"
    by (cases "stats_row p (ord 0) columns r") auto
  then show "snd (Gather p ord acc) \<noteq> Ok ()"
    using q by (cases "stats_rows p ord columns (r # rs) acc")
      (auto simp: Gather_def split: res.splits)
next
  assume e: "SanitizedAddress p = Inl e"
    and wf: "scan_error r = None \<and> distinct columns \<and> length (cells r) = length columns \<and>
       (\<forall>v. map_of (zip columns (cells r)) ''database'' = Some v \<longrightarrow> (\<exists>s. v = VString s))"
  from wf have w: "scan_error r = None" "distinct columns" "length (cells r) = length columns"
    and db: "\<forall>v. map_of (zip columns (cells r)) ''database'' = Some v \<longrightarrow> (\<exists>s. v = VString s)"
    by simp_all
  show a: "accRow p r columns = Error e"
  proof (cases "map_of (zip columns (cells r)) ''database''")
    case None
    then show ?thesis unfolding accRow_wf [OF w] using e by simp
  next
    case (Some v)
    with db obtain s where "v = VString s" by blast
    with Some show ?thesis unfolding accRow_wf [OF w] using e by simp
  qed
  have sr: "stats_rows p ord' columns (r # rs) acc' = (acc', Error e)" for ord' acc'
    using a by (simp add: stats_row_def)
  have pr: "pool_rows p ord' columns (r # rs) acc' = (acc', Error e)" for ord' acc'
    using a by (simp add: pool_row_def)
  show "stats_rows p ord columns (r # rs) acc = (acc, Error e)" by (rule sr)
  show "pool_rows p ord columns (r # rs) acc = (acc, Error e)" by (rule pr)
  {
    assume "Query p ''SHOW STATS'' = Inr rows \<and> rows_Columns rows = Inr columns \<and>
          rows_Next rows = r # rs"
    then show "Gather p ord acc = (acc, Error e)"
      by (simp add: Gather_def sr del: stats_rows.simps)
  }
  {
    assume "Query p ''SHOW STATS'' = Inr rows \<and> rows_Columns rows = Inr statColumns \<and>
          stats_rows p ord statColumns (rows_Next rows) acc = (acc1, Ok ()) \<and>
          rows_Err rows = None \<and>
          Query p ''SHOW POOLS'' = Inr poolRows \<and> rows_Columns poolRows = Inr columns \<and>
          rows_Next poolRows = r # rs"
    then show "Gather p ord acc = (acc1, Error e)"
      by (simp add: Gather_def gather_pools_def pr del: pool_rows.simps)
  }
qed

theorem C7_server_tag_witness:
  "Gather (plugin_of (result_set [''total_xact_count''] [[VInt64 42]])
                     (result_set [''cl_active''] [[VInt64 3]])) in_order []
   = ([\<lparr>measurement = ''odyssey'', fieldset = [''total_xact_count'' \<mapsto> VInt64 42],
        tagset = [''server'' \<mapsto> ''host=localhost'', ''db'' \<mapsto> ''postgres'']\<rparr>,
       \<lparr>measurement = ''odyssey_pools'', fieldset = [''cl_active'' \<mapsto> VInt64 3],
        tagset = [''server'' \<mapsto> ''host=localhost'', ''db'' \<mapsto> ''postgres'']\<rparr>],
      Ok ()) \<and>
   (\<exists>a. SanitizedAddress (plugin_of (result_set [''total_xact_count''] [[VInt64 42]])
                                   (result_set [''cl_active''] [[VInt64 3]])) = Inr a \<and>
        tagset \<lparr>measurement = ''odyssey_pools'', fieldset = [''cl_active'' \<mapsto> VInt64 3],
               tagset = [''server'' \<mapsto> ''host=localhost'', ''db'' \<mapsto> ''postgres'']\<rparr>
          ''server'' = Some a) \<and>
   SanitizedAddress (failing_sanitizer (plugin_of (result_set [''cl_active''] [[VInt64 3]])
                                                  (result_set [] [])))
   = Inl (AddressError ''invalid connection string'') \<and>
   scan_error (scanned [VInt64 3]) = None \<and> distinct [''cl_active''] \<and>
   length (cells (scanned [VInt64 3])) = length [''cl_active''] \<and>
   map_of (zip [''cl_active''] (cells (scanned [VInt64 3]))) ''database'' = None \<and>
   Gather (failing_sanitizer (plugin_of (result_set [''cl_active''] [[VInt64 3]])
                                        (result_set [] []))) in_order []
   = ([], Error (AddressError ''invalid connection string'')) \<and>
   Gather (failing_sanitizer (plugin_of (result_set [''total_xact_count''] [])
                                        (result_set [''cl_active''] [[VInt64 3]]))) in_order []
   = ([], Error (AddressError ''invalid connection string''))"
proof -
  let ?ms = "\<lparr>measurement = ''odyssey'', fieldset = [''total_xact_count'' \<mapsto> VInt64 42],
        tagset = [''server'' \<mapsto> ''host=localhost'', ''db'' \<mapsto> ''postgres'']\<rparr>"
  let ?mp = "\<lparr>measurement = ''odyssey_pools'', fieldset = [''cl_active'' \<mapsto> VInt64 3],
        tagset = [''server'' \<mapsto> ''host=localhost'', ''db'' \<mapsto> ''postgres'']\<rparr>"
  let ?g = "plugin_of (result_set [''total_xact_count''] [[VInt64 42]])
                      (result_set [''cl_active''] [[VInt64 3]])"
  let ?e = "AddressError ''invalid connection string''"
  let ?r = "scanned [VInt64 3]"
  let ?S = "result_set [''cl_active''] [[VInt64 3]]"
  let ?E = "result_set [''total_xact_count''] []"
  let ?q1 = "failing_sanitizer (plugin_of ?S (result_set [] []))"
  let ?q2 = "failing_sanitizer (plugin_of ?E ?S)"
  have good: "Gather ?g in_order [] = ([?ms, ?mp], Ok ())"
    by (simp add: Gather_def gather_pools_def plugin_of_def result_set_def scanned_def
        stats_row_def pool_row_def accRow_def Scan_def range_map_def ignore_iff AddFields_def
        tag_from_column_def)
  then have mem: "?mp \<in> set (fst (Gather ?g in_order []))" by (simp del: fun_upd_apply)
  have tag: "\<exists>a. SanitizedAddress ?g = Inr a \<and> tagset ?mp ''server'' = Some a"
    by (rule C7_server_tag [where p = ?g and ord = in_order,
          THEN conjunct2, THEN conjunct2, THEN conjunct1, THEN bspec, OF mem])
  have e1: "SanitizedAddress ?q1 = Inl ?e" and e2: "SanitizedAddress ?q2 = Inl ?e"
    by (simp_all add: failing_sanitizer_def)
  have w1: "scan_error ?r = None" and w2: "distinct [''cl_active'']"
    and w3: "length (cells ?r) = length [''cl_active'']"
    and w4: "map_of (zip [''cl_active''] (cells ?r)) ''database'' = None"
    by (simp_all add: scanned_def)
  have wf: "scan_error ?r = None \<and> distinct [''cl_active''] \<and>
      length (cells ?r) = length [''cl_active''] \<and>
      (\<forall>v. map_of (zip [''cl_active''] (cells ?r)) ''database'' = Some v \<longrightarrow>
        (\<exists>s. v = VString s))"
    by (simp add: scanned_def)
  have h1: "Query ?q1 ''SHOW STATS'' = Inr ?S \<and> rows_Columns ?S = Inr [''cl_active''] \<and>
            rows_Next ?S = ?r # []"
    by (simp add: failing_sanitizer_def plugin_of_def result_set_def)
  have h2: "Query ?q2 ''SHOW STATS'' = Inr ?E \<and> rows_Columns ?E = Inr [''total_xact_count''] \<and>
            stats_rows ?q2 in_order [''total_xact_count''] (rows_Next ?E) [] = ([], Ok ()) \<and>
            rows_Err ?E = None \<and>
            Query ?q2 ''SHOW POOLS'' = Inr ?S \<and> rows_Columns ?S = Inr [''cl_active''] \<and>
            rows_Next ?S = ?r # []"
    by (simp add: failing_sanitizer_def plugin_of_def result_set_def)
  have bad1: "Gather ?q1 in_order [] = ([], Error ?e)"
    by (rule C7_server_tag [where p = ?q1 and ord = in_order and acc = "[]",
          THEN conjunct2, THEN conjunct2, THEN conjunct2, THEN mp, OF e1,
          THEN conjunct2, THEN conjunct2, THEN conjunct2, THEN mp, OF wf,
          THEN conjunct2, THEN conjunct2, THEN conjunct2, THEN conjunct1, THEN mp, OF h1])
  have bad2: "Gather ?q2 in_order [] = ([], Error ?e)"
    by (rule C7_server_tag [where p = ?q2 and ord = in_order and acc = "[]",
          THEN conjunct2, THEN conjunct2, THEN conjunct2, THEN mp, OF e2,
          THEN conjunct2, THEN conjunct2, THEN conjunct2, THEN mp, OF wf,
          THEN conjunct2, THEN conjunct2, THEN conjunct2, THEN conjunct2, THEN mp, OF h2])
  from good tag e1 w1 w2 w3 w4 bad1 bad2 show ?thesis by (intro conjI) assumption+
qed

subsection \<open>C8: the end-of-iteration error check\<close>

text \<open>
  C8. When every row of the statistics result set was processed (the loop ran to the end)
  and \<open>rows.Err()\<close> then reports \<open>e\<close>, \<open>Gather\<close> returns \<open>e\<close>. When the
  statistics pass completed without error, every row of the pool-status result set was
  processed and \<open>poolRows.Err()\<close> reports \<open>e\<close>, \<open>Gather\<close> returns \<open>e\<close> as well.
  In both cases the metrics of the processed rows are in the accumulator.
\<close>

theorem C8_end_of_iteration_error:
  "(Query p ''SHOW STATS'' = Inr rows \<and> rows_Columns rows = Inr columns \<and>
    stats_rows p ord columns (rows_Next rows) acc = (acc1, Ok ()) \<and>
    rows_Err rows = Some e
      \<longrightarrow> Gather p ord acc = (acc1, Error e)) \<and>
   (Query p ''SHOW STATS'' = Inr rows \<and> rows_Columns rows = Inr columns \<and>
    stats_rows p ord columns (rows_Next rows) acc = (acc1, Ok ()) \<and>
    rows_Err rows = None \<and>
    Query p ''SHOW POOLS'' = Inr poolRows \<and> rows_Columns poolRows = Inr poolColumns \<and>
    pool_rows p (\<lambda>k. ord (length (rows_Next rows) + k)) poolColumns (rows_Next poolRows) acc1
      = (acc2, Ok ()) \<and>
    rows_Err poolRows = Some e
      \<longrightarrow> Gather p ord acc = (acc2, Error e))"
  by (simp add: Gather_def gather_pools_def)

theorem C8_end_of_iteration_error_witness:
  "Gather (plugin_of (failing_at_end (result_set [''total_xact_count''] [[VInt64 42]]))
                     (result_set [''cl_active''] [[VInt64 3]])) in_order []
   = ([\<lparr>measurement = ''odyssey'', fieldset = [''total_xact_count'' \<mapsto> VInt64 42],
        tagset = [''server'' \<mapsto> ''host=localhost'', ''db'' \<mapsto> ''postgres'']\<rparr>],
      Error (DriverError ''unexpected EOF'')) \<and>
   Gather (plugin_of (result_set [''total_xact_count''] [[VInt64 42]])
                     (failing_at_end (result_set [''cl_active''] [[VInt64 3]]))) in_order []
   = ([\<lparr>measurement = ''odyssey'', fieldset = [''total_xact_count'' \<mapsto> VInt64 42],
        tagset = [''server'' \<mapsto> ''host=localhost'', ''db'' \<mapsto> ''postgres'']\<rparr>,
       \<lparr>measurement = ''odyssey_pools'', fieldset = [''cl_active'' \<mapsto> VInt64 3],
        tagset = [''server'' \<mapsto> ''host=localhost'', ''db'' \<mapsto> ''postgres'']\<rparr>],
      Error (DriverError ''unexpected EOF''))"
proof -
  let ?s = "result_set [''total_xact_count''] [[VInt64 42]]"
  let ?q = "result_set [''cl_active''] [[VInt64 3]]"
  let ?ms = "\<lparr>measurement = ''odyssey'', fieldset = [''total_xact_count'' \<mapsto> VInt64 42],
        tagset = [''server'' \<mapsto> ''host=localhost'', ''db'' \<mapsto> ''postgres'']\<rparr>"
  let ?mp = "\<lparr>measurement = ''odyssey_pools'', fieldset = [''cl_active'' \<mapsto> VInt64 3],
        tagset = [''server'' \<mapsto> ''host=localhost'', ''db'' \<mapsto> ''postgres'']\<rparr>"
  let ?e = "DriverError ''unexpected EOF''"
  let ?p1 = "plugin_of (failing_at_end ?s) ?q"
  let ?p2 = "plugin_of ?s (failing_at_end ?q)"
  have sr: "stats_rows p in_order [''total_xact_count''] [scanned [VInt64 42]] [] = ([?ms], Ok ())"
    if "SanitizedAddress p = Inr ''host=localhost''" for p
    using that
    by (simp add: stats_row_def accRow_def Scan_def scanned_def range_map_def ignore_iff
        AddFields_def)
  have pr: "pool_rows p (\<lambda>k. in_order (length [scanned [VInt64 42]] + k)) [''cl_active'']
              [scanned [VInt64 3]] [?ms] = ([?ms, ?mp], Ok ())"
    if "SanitizedAddress p = Inr ''host=localhost''" for p
    using that
    by (simp add: pool_row_def accRow_def Scan_def scanned_def range_map_def ignore_iff
        AddFields_def tag_from_column_def)
  have a1: "SanitizedAddress ?p1 = Inr ''host=localhost''"
    and a2: "SanitizedAddress ?p2 = Inr ''host=localhost''"
    by (simp_all add: plugin_of_def)
  have h1: "Query ?p1 ''SHOW STATS'' = Inr (failing_at_end ?s) \<and>
            rows_Columns (failing_at_end ?s) = Inr [''total_xact_count''] \<and>
            stats_rows ?p1 in_order [''total_xact_count''] (rows_Next (failing_at_end ?s)) []
              = ([?ms], Ok ()) \<and>
            rows_Err (failing_at_end ?s) = Some ?e"
    using sr [OF a1] by (simp add: plugin_of_def failing_at_end_def result_set_def)
  have h2: "Query ?p2 ''SHOW STATS'' = Inr ?s \<and>
            rows_Columns ?s = Inr [''total_xact_count''] \<and>
            stats_rows ?p2 in_order [''total_xact_count''] (rows_Next ?s) [] = ([?ms], Ok ()) \<and>
            rows_Err ?s = None \<and>
            Query ?p2 ''SHOW POOLS'' = Inr (failing_at_end ?q) \<and>
            rows_Columns (failing_at_end ?q) = Inr [''cl_active''] \<and>
            pool_rows ?p2 (\<lambda>k. in_order (length (rows_Next ?s) + k)) [''cl_active'']
              (rows_Next (failing_at_end ?q)) [?ms] = ([?ms, ?mp], Ok ()) \<and>
            rows_Err (failing_at_end ?q) = Some ?e"
    using sr [OF a2] pr [OF a2] by (simp add: plugin_of_def failing_at_end_def result_set_def)
  have g1: "Gather ?p1 in_order [] = ([?ms], Error ?e)"
    by (rule C8_end_of_iteration_error [THEN conjunct1, THEN mp, OF h1])
  have g2: "Gather ?p2 in_order [] = ([?ms, ?mp], Error ?e)"
    by (rule C8_end_of_iteration_error [THEN conjunct2, THEN mp, OF h2])
  from g1 g2 show ?thesis by (intro conjI) assumption+
qed

subsection \<open>C9: row processing is deterministic and stateless\<close>

text \<open>
  C9. The body of each pass is a function of the sanitizer's answer, the column list and the
  row; the one thing two runs over the same row can differ in is the order in which Go ranges
  over the column map. For two plugins with the same sanitizer answer and any two range
  orders, the statistics body yields the same metric (or panics in both runs, or returns an
  error in both: with several unparseable strings, which parse error is returned depends on
  the order), and the pool-status body yields the same result. The metrics a cycle emits do
  not depend on the range orders nor on what the accumulator held before, and neither does
  the kind of outcome of the cycle.
\<close>

theorem C9_deterministic:
  assumes "SanitizedAddress p = SanitizedAddress p'"
  shows "same_outcome (stats_row p rank columns r) (stats_row p' rank' columns r) \<and>
         (stats_row p rank columns r = Ok m) = (stats_row p' rank' columns r = Ok m) \<and>
         pool_row p rank columns r = pool_row p' rank' columns r \<and>
         fst (Gather p ord acc) = acc @ fst (Gather p ord' []) \<and>
         same_outcome (snd (Gather p ord acc)) (snd (Gather p ord' acc'))"
proof -
  note a = accRow_sanitizer [OF assms, of r columns]
  have s: "stats_row p rank' columns r = stats_row p' rank' columns r"
    by (simp add: stats_row_def a)
  have so: "same_outcome (stats_row p rank columns r) (stats_row p' rank' columns r)"
    using stats_row_rank [of p rank columns r rank'] by (simp only: s)
  have iff: "(stats_row p rank columns r = Ok m) = (stats_row p' rank' columns r = Ok m)"
    using so
    by (cases "stats_row p rank columns r"; cases "stats_row p' rank' columns r")
       (simp_all add: same_outcome_def)
  have "pool_row p rank' columns r = pool_row p' rank' columns r"
    by (simp add: pool_row_def a)
  with pool_row_rank [of p rank columns r rank']
  have pr: "pool_row p rank columns r = pool_row p' rank' columns r" by simp
  have g1: "fst (Gather p ord acc) = acc @ fst (Gather p ord' [])"
  proof -
    have "fst (Gather p ord acc) = acc @ fst (Gather p ord [])"
      by (subst Gather_acc) simp
    also have "fst (Gather p ord []) = fst (Gather p ord' [])"
      using Gather_rank [of p ord "[]" ord'] by simp
    finally show ?thesis .
  qed
  have g2: "same_outcome (snd (Gather p ord acc)) (snd (Gather p ord' acc'))"
  proof -
    have a: "snd (Gather p ord acc) = snd (Gather p ord [])" by (subst Gather_acc) simp
    have b: "snd (Gather p ord' acc') = snd (Gather p ord' [])" by (subst Gather_acc) simp
    show ?thesis unfolding a b using Gather_rank [of p ord "[]" ord'] by simp
  qed
  from so iff pr g1 g2 show ?thesis
    by (intro conjI) assumption+
qed

theorem C9_deterministic_witness:
  "SanitizedAddress (plugin_of (result_set [] []) (result_set [] []))
     = SanitizedAddress (plugin_of (result_set [''total_xact_count''] [[VInt64 1]]) (result_set [] [])) \<and>
   range_map (in_order 0) [(''total_xact_count'', VInt64 42), (''total_query_count'', VString ''17'')]
     = [(''total_xact_count'', VInt64 42), (''total_query_count'', VString ''17'')] \<and>
   range_map (reversed 0) [(''total_xact_count'', VInt64 42), (''total_query_count'', VString ''17'')]
     = [(''total_query_count'', VString ''17''), (''total_xact_count'', VInt64 42)] \<and>
   (\<exists>m. stats_row (plugin_of (result_set [] []) (result_set [] [])) (in_order 0)
          [''total_xact_count'', ''total_query_count''] (scanned [VInt64 42, VString ''17'']) = Ok m \<and>
        stats_row (plugin_of (result_set [''total_xact_count''] [[VInt64 1]]) (result_set [] []))
          (reversed 0)
          [''total_xact_count'', ''total_query_count''] (scanned [VInt64 42, VString ''17'']) = Ok m)"
proof -
  let ?p = "plugin_of (result_set [] []) (result_set [] [])"
  let ?p' = "plugin_of (result_set [''total_xact_count''] [[VInt64 1]]) (result_set [] [])"
  let ?cols = "[''total_xact_count'', ''total_query_count'']"
  let ?r = "scanned [VInt64 42, VString ''17'']"
  have sa: "SanitizedAddress ?p = SanitizedAddress ?p'" by (simp add: plugin_of_def)
  have p17: "ParseInt ''17'' = Inr 17" by (simp add: ParseInt_eval)
  have r1: "range_map (in_order 0) [(''total_xact_count'', VInt64 42), (''total_query_count'', VString ''17'')]
     = [(''total_xact_count'', VInt64 42), (''total_query_count'', VString ''17'')]"
    by (simp add: range_map_def in_order_def)
  have r2: "range_map (reversed 0) [(''total_xact_count'', VInt64 42), (''total_query_count'', VString ''17'')]
     = [(''total_query_count'', VString ''17''), (''total_xact_count'', VInt64 42)]"
    by (simp add: range_map_def reversed_def)
  obtain m where m: "stats_row ?p (in_order 0) ?cols ?r = Ok m"
    by (simp add: stats_row_def accRow_def Scan_def scanned_def plugin_of_def r1 ignore_iff p17)
  have "stats_row ?p' (reversed 0) ?cols ?r = Ok m"
    using C9_deterministic [OF sa, of "in_order 0" ?cols ?r "reversed 0" m,
        THEN conjunct2, THEN conjunct1] m
    by (rule iffD1)
  with sa m r1 r2 show ?thesis by (intro conjI exI [of _ m]) assumption+
qed

subsection \<open>C10: the unchecked type assertion on the database column\<close>

text \<open>
  C10. When a row contains a \<open>database\<close> column whose scanned value is not a string
  (SQL NULL, decoded as the nil interface, is one such value), \<open>accRow\<close> reaches the
  unchecked type assertion of line 171 and panics: it neither returns an error nor defaults
  the \<open>db\<close> tag to \<open>postgres\<close>. Both passes of \<open>Gather\<close> stop at that row with the
  panic, and the accumulator is left as it was before the row.
\<close>

theorem C10_database_assertion_panics:
  assumes "scan_error r = None" and "distinct columns" and "length (cells r) = length columns"
    and "i < length columns" and "columns ! i = ''database''"
    and "\<forall>s. cells r ! i \<noteq> VString s"
  shows "accRow p r columns = Panic \<and>
         stats_row p rank columns r = Panic \<and>
         pool_row p rank columns r = Panic \<and>
         stats_rows p ord columns (r # rs) acc = (acc, Panic) \<and>
         pool_rows p ord columns (r # rs) acc = (acc, Panic)"
proof -
  have "map_of (zip columns (cells r)) (columns ! i) = Some (cells r ! i)"
    using assms(2,3,4) by (intro map_of_zip_nth) auto
  then have db: "map_of (zip columns (cells r)) ''database'' = Some (cells r ! i)"
    using assms(5) by simp
  have a: "accRow p r columns = Panic"
    unfolding accRow_wf [OF assms(1,2,3)] db
    using assms(6) by (cases "cells r ! i") simp_all
  then show ?thesis by (simp add: stats_row_def pool_row_def)
qed

theorem C10_database_assertion_panics_witness:
  "scan_error (scanned [VInt64 5, VNil]) = None \<and>
   distinct [''total_xact_count'', ''database''] \<and>
   length (cells (scanned [VInt64 5, VNil])) = length [''total_xact_count'', ''database''] \<and>
   (1::nat) < length [''total_xact_count'', ''database''] \<and>
   [''total_xact_count'', ''database''] ! 1 = ''database'' \<and>
   (\<forall>s. cells (scanned [VInt64 5, VNil]) ! 1 \<noteq> VString s) \<and>
   accRow (plugin_of (result_set [] []) (result_set [] [])) (scanned [VInt64 5, VNil])
     [''total_xact_count'', ''database''] = Panic"
  using C10_database_assertion_panics
    [of "scanned [VInt64 5, VNil]" "[''total_xact_count'', ''database'']" 1
        "plugin_of (result_set [] []) (result_set [] [])"]
  by (simp add: scanned_def)

end
